theory Spec2Isabelle
  imports Main
begin

section \<open>Errors and results\<close>

text \<open>
  Every \<^verbatim>\<open>XLA_CHECK\<close> of \<^verbatim>\<open>data_ops.cpp\<close> that fails aborts the lowering call; the
  model returns the failure as a value. The names follow the error taxonomy of the
  specification. \<open>DimensionOutOfRange\<close> also stands for the \<^verbatim>\<open>std::out_of_range\<close> of
  \<^verbatim>\<open>vector::at\<close> and \<^verbatim>\<open>Shape::dimensions(i)\<close>. \<open>DivisionByZero\<close> is the integer
  division by zero of C++ (undefined behaviour, a trap on the usual targets) and
  \<open>DivisionOverflow\<close> the division of the least 64-bit integer by -1, which traps
  the same way: neither is one of the documented errors. \<open>LengthError\<close> is the failure of constructing a
  \<^verbatim>\<open>std::vector\<close> with a negative count converted to \<^verbatim>\<open>size_t\<close>.
  \<open>InvalidArgument\<close> is the status the graph builder reports for a primitive
  operation whose operands violate its contract.
\<close>

datatype error =
    MultipleIncompleteDimensions
  | ShapeElementCountMismatch
  | RankMismatch
  | ShapeMismatch
  | DimensionOutOfRange
  | FullCoverageWindowMismatch
  | EmptyInputs
  | DivisionByZero
  | DivisionOverflow
  | LengthError
  | InvalidArgument

section \<open>Integer helpers\<close>

text \<open>
  An \<^verbatim>\<open>xla::int64\<close> value is an integer of the signed 64-bit range. The products
  of \<^verbatim>\<open>GetCompleteShape\<close> and \<^verbatim>\<open>BuildResize\<close> and the sums and differences of
  \<^verbatim>\<open>BuildSplit\<close> and \<^verbatim>\<open>ComputeSplitCount\<close> are computed in that type and wrap
  around modulo \<open>2^64\<close>, which \<open>wrap64\<close> writes out. C++ division and remainder
  truncate towards zero.
\<close>

definition fits64 :: "int \<Rightarrow> bool" where
  "fits64 x \<longleftrightarrow> - (2 ^ 63) \<le> x \<and> x < 2 ^ 63"

definition wrap64 :: "int \<Rightarrow> int" where
  "wrap64 x = (x + 2 ^ 63) mod 2 ^ 64 - 2 ^ 63"

definition int64_sizes :: "int list \<Rightarrow> bool" where
  "int64_sizes sizes = list_all fits64 sizes"

definition cpp_div :: "int \<Rightarrow> int \<Rightarrow> int" where
  "cpp_div a b = sgn a * sgn b * (\<bar>a\<bar> div \<bar>b\<bar>)"

definition cpp_mod :: "int \<Rightarrow> int \<Rightarrow> int" where
  "cpp_mod a b = a - b * cpp_div a b"

text \<open>
  Modelled from the spec: \<^verbatim>\<open>xla::util::Multiply\<close> (declared in
  \<^verbatim>\<open>xla_client/util.h\<close>) is the product of the
  entries of a sequence, 1 for the empty sequence, accumulated in \<^verbatim>\<open>xla::int64\<close>.
\<close>

definition Multiply :: "int list \<Rightarrow> int" where
  "Multiply sizes = fold (\<lambda>s acc. wrap64 (acc * s)) sizes 1"

section \<open>GetCompleteShape\<close>

text \<open>
  The scanning loop of \<^verbatim>\<open>GetCompleteShape\<close>: \<open>dim\<close> is the loop counter,
  \<open>incomplete_dim\<close> the optional index found so far and
  \<open>incomplete_element_count\<close> the running product of the non-negative entries.
\<close>

fun scan_output_sizes ::
  "int list \<Rightarrow> nat \<Rightarrow> nat option \<Rightarrow> int \<Rightarrow> error + (nat option \<times> int)" where
  "scan_output_sizes [] dim incomplete_dim incomplete_element_count =
     Inr (incomplete_dim, incomplete_element_count)"
| "scan_output_sizes (dim_size # rest) dim incomplete_dim incomplete_element_count =
     (if dim_size < 0 then
        (case incomplete_dim of
           Some _ \<Rightarrow> Inl MultipleIncompleteDimensions
         | None \<Rightarrow> scan_output_sizes rest (Suc dim) (Some dim) incomplete_element_count)
      else scan_output_sizes rest (Suc dim) incomplete_dim
             (wrap64 (incomplete_element_count * dim_size)))"

definition GetCompleteShape :: "int list \<Rightarrow> int list \<Rightarrow> error + int list" where
  "GetCompleteShape output_sizes input_sizes =
     (case scan_output_sizes output_sizes 0 None 1 of
        Inl e \<Rightarrow> Inl e
      | Inr (incomplete_dim, incomplete_element_count) \<Rightarrow>
          (let total_element_count = Multiply input_sizes in
           case incomplete_dim of
             None \<Rightarrow>
               if total_element_count = Multiply output_sizes then Inr output_sizes
               else Inl ShapeElementCountMismatch
           | Some i \<Rightarrow>
               if incomplete_element_count = 0 then Inl DivisionByZero
               else if total_element_count = - (2 ^ 63) \<and> incomplete_element_count = - 1
                 then Inl DivisionOverflow
               else if cpp_mod total_element_count incomplete_element_count \<noteq> 0
                 then Inl ShapeElementCountMismatch
               else Inr (output_sizes
                      [i := cpp_div total_element_count incomplete_element_count])))"

text \<open>The quantities the specification names, written from its words.\<close>

definition known_elements_product :: "int list \<Rightarrow> int" where
  "known_elements_product target_sizes = prod_list (filter (\<lambda>s. 0 \<le> s) target_sizes)"

section \<open>Shapes, literals and graph nodes\<close>

text \<open>
  The graph builder and its primitive operations belong to the XLA library, outside
  the file verified here. A node is modelled as the expression that built it; its
  value is a literal: an element type, the dimension sizes and the elements in
  row-major order. Element values are integers; a predicate is 1 (true) or 0 (false),
  the constants the source itself passes for the mask and its fill value.
\<close>

datatype PrimitiveType = PRED | S64

record Shape =
  element_type :: PrimitiveType
  dimensions :: "int list"

record Literal =
  literal_type :: PrimitiveType
  literal_dims :: "nat list"
  literal_data :: "int list"

record PaddingConfigDimension =
  edge_padding_low :: int
  edge_padding_high :: int
  interior_padding :: int

datatype XlaOp =
    Constant Literal
  | Reshape XlaOp "int list"
  | Broadcast XlaOp "int list"
  | Pad XlaOp XlaOp "PaddingConfigDimension list"
  | SliceInDim XlaOp int int int int
  | ConcatInDim "XlaOp list" int
  | Select XlaOp XlaOp XlaOp

definition rank :: "Shape \<Rightarrow> nat" where
  "rank shape = length (dimensions shape)"

definition ElementsIn :: "Shape \<Rightarrow> int" where
  "ElementsIn shape = Multiply (dimensions shape)"

section \<open>Values of the primitive operations\<close>

text \<open>
  A literal of dimensions \<open>ds\<close> is viewed along dimension \<open>d\<close> as \<open>outer\<close> blocks
  (the product of the sizes before \<open>d\<close>) of \<open>ds ! d\<close> rows of \<open>inner\<close> elements
  (the product of the sizes after \<open>d\<close>). \<open>chop c sz xs\<close> cuts the first \<open>c\<close>
  pieces of length \<open>sz\<close> from \<open>xs\<close>.
\<close>

fun chop :: "nat \<Rightarrow> nat \<Rightarrow> 'a list \<Rightarrow> 'a list list" where
  "chop 0 sz xs = []"
| "chop (Suc c) sz xs = take sz xs # chop c sz (drop sz xs)"

definition rows_of :: "nat \<Rightarrow> nat \<Rightarrow> nat \<Rightarrow> 'a list \<Rightarrow> 'a list list list" where
  "rows_of outer n inner xs = map (chop n inner) (chop outer (n * inner) xs)"

definition flatten_rows :: "'a list list list \<Rightarrow> 'a list" where
  "flatten_rows R = concat (map concat R)"

definition outer_count :: "nat \<Rightarrow> nat list \<Rightarrow> nat" where
  "outer_count d ds = prod_list (take d ds)"

definition inner_count :: "nat \<Rightarrow> nat list \<Rightarrow> nat" where
  "inner_count d ds = prod_list (drop (Suc d) ds)"

definition valid_literal :: "Literal \<Rightarrow> bool" where
  "valid_literal l \<longleftrightarrow> length (literal_data l) = prod_list (literal_dims l)"

definition nonneg_sizes :: "int list \<Rightarrow> bool" where
  "nonneg_sizes sizes = list_all (\<lambda>s. 0 \<le> s) sizes"

text \<open>
  The builder validates every shape it infers: each dimension size and the element
  count are 64-bit values. An operation whose result would have another shape is
  invalid.
\<close>

definition dims_fit :: "nat list \<Rightarrow> bool" where
  "dims_fit ds \<longleftrightarrow> list_all (\<lambda>d. fits64 (int d)) ds \<and> fits64 (int (prod_list ds))"

definition checked :: "error + Literal \<Rightarrow> error + Literal" where
  "checked r =
     (case r of
        Inl e \<Rightarrow> Inl e
      | Inr l \<Rightarrow> if dims_fit (literal_dims l) then Inr l else Inl InvalidArgument)"

text \<open>Reshape keeps the row-major element sequence and needs the same element count.\<close>

definition lit_reshape :: "Literal \<Rightarrow> int list \<Rightarrow> error + Literal" where
  "lit_reshape l new_sizes =
     (if nonneg_sizes new_sizes \<and>
         prod_list (map nat new_sizes) = prod_list (literal_dims l)
      then Inr (l\<lparr>literal_dims := map nat new_sizes\<rparr>)
      else Inl InvalidArgument)"

text \<open>Broadcast adds the new sizes as leading dimensions and replicates the operand.\<close>

definition lit_broadcast :: "Literal \<Rightarrow> int list \<Rightarrow> error + Literal" where
  "lit_broadcast l broadcast_sizes =
     (if nonneg_sizes broadcast_sizes
      then Inr (l\<lparr>literal_dims := map nat broadcast_sizes @ literal_dims l,
                  literal_data :=
                    concat (replicate (prod_list (map nat broadcast_sizes)) (literal_data l))\<rparr>)
      else Inl InvalidArgument)"

fun every_nth :: "nat \<Rightarrow> 'a list \<Rightarrow> 'a list" where
  "every_nth k [] = []"
| "every_nth k (x # xs) = x # every_nth k (drop (k - 1) xs)"

text \<open>
  A slice along one dimension takes the rows \<open>start, start + stride, \<dots>\<close> below
  \<open>limit\<close> of every block.
\<close>

definition lit_slice_in_dim :: "Literal \<Rightarrow> int \<Rightarrow> int \<Rightarrow> int \<Rightarrow> int \<Rightarrow> error + Literal" where
  "lit_slice_in_dim l start_index limit_index stride dimno =
     (let ds = literal_dims l; d = nat dimno in
      if 0 \<le> dimno \<and> d < length ds \<and> 0 \<le> start_index \<and> start_index \<le> limit_index \<and>
         limit_index \<le> int (ds ! d) \<and> 0 < stride
      then Inr (l\<lparr>literal_dims :=
                    ds[d := (nat (limit_index - start_index) + nat stride - 1) div nat stride],
                  literal_data :=
                    flatten_rows
                      (map (\<lambda>rows. every_nth (nat stride)
                               (take (nat (limit_index - start_index))
                                  (drop (nat start_index) rows)))
                         (rows_of (outer_count d ds) (ds ! d) (inner_count d ds)
                            (literal_data l)))\<rparr>)
      else Inl InvalidArgument)"

text \<open>
  Concatenation needs at least one operand, operands of one element type and one
  rank that agree on every dimension but \<open>dimno\<close>; block by block it appends the
  rows of the operands in order.
\<close>

definition concat_compatible :: "nat \<Rightarrow> Literal \<Rightarrow> Literal \<Rightarrow> bool" where
  "concat_compatible d l0 l \<longleftrightarrow>
     literal_type l = literal_type l0 \<and> (literal_dims l)[d := 0] = (literal_dims l0)[d := 0]"

definition lit_concat :: "Literal list \<Rightarrow> int \<Rightarrow> error + Literal" where
  "lit_concat ls dimno =
     (case ls of
        [] \<Rightarrow> Inl InvalidArgument
      | l0 # _ \<Rightarrow>
          (let ds = literal_dims l0; d = nat dimno in
           if 0 \<le> dimno \<and> d < length ds \<and> list_all (concat_compatible d l0) ls
           then Inr \<lparr>literal_type = literal_type l0,
                     literal_dims = ds[d := sum_list (map (\<lambda>l. literal_dims l ! d) ls)],
                     literal_data =
                       flatten_rows
                         (map (\<lambda>k. concat
                                 (map (\<lambda>l. rows_of (outer_count d ds) (literal_dims l ! d)
                                               (inner_count d ds) (literal_data l) ! k) ls))
                            [0..<outer_count d ds])\<rparr>
           else Inl InvalidArgument))"

text \<open>
  Padding of one dimension: output row \<open>j\<close> is input row \<open>i\<close> when
  \<open>j = low + i * (interior + 1)\<close>, the padding value otherwise; a negative edge
  padding removes rows. The padded size must not be negative and the interior padding
  must not be negative.
\<close>

definition padded_size :: "nat \<Rightarrow> PaddingConfigDimension \<Rightarrow> int" where
  "padded_size n c =
     edge_padding_low c + int n + max (int n - 1) 0 * interior_padding c + edge_padding_high c"

definition pad_rows :: "PaddingConfigDimension \<Rightarrow> 'a list \<Rightarrow> 'a list list \<Rightarrow> 'a list list" where
  "pad_rows c fill rows =
     map (\<lambda>j. let p = int j - edge_padding_low c in
               if 0 \<le> p \<and> p mod (interior_padding c + 1) = 0 \<and>
                  p div (interior_padding c + 1) < int (length rows)
               then rows ! nat (p div (interior_padding c + 1)) else fill)
       [0..<nat (padded_size (length rows) c)]"

definition pad_dim :: "nat \<Rightarrow> PaddingConfigDimension \<Rightarrow> int \<Rightarrow> nat list \<times> int list \<Rightarrow> nat list \<times> int list" where
  "pad_dim d c v t =
     (case t of (ds, xs) \<Rightarrow>
        (ds[d := nat (padded_size (ds ! d) c)],
         flatten_rows
           (map (pad_rows c (replicate (inner_count d ds) v))
              (rows_of (outer_count d ds) (ds ! d) (inner_count d ds) xs))))"

fun pad_dims :: "nat \<Rightarrow> PaddingConfigDimension list \<Rightarrow> int \<Rightarrow> nat list \<times> int list \<Rightarrow> nat list \<times> int list" where
  "pad_dims d [] v t = t"
| "pad_dims d (c # cs) v t = pad_dims (Suc d) cs v (pad_dim d c v t)"

definition valid_padding :: "nat list \<Rightarrow> PaddingConfigDimension list \<Rightarrow> bool" where
  "valid_padding ds config \<longleftrightarrow>
     length config = length ds \<and>
     list_all (\<lambda>(n, c). 0 \<le> interior_padding c \<and> 0 \<le> padded_size n c) (zip ds config)"

definition lit_pad :: "Literal \<Rightarrow> Literal \<Rightarrow> PaddingConfigDimension list \<Rightarrow> error + Literal" where
  "lit_pad l padding_value config =
     (case literal_data padding_value of
        [v] \<Rightarrow>
          if literal_dims padding_value = [] \<and> literal_type padding_value = literal_type l \<and>
             valid_padding (literal_dims l) config
          then (case pad_dims 0 config v (literal_dims l, literal_data l) of
                  (ds, xs) \<Rightarrow> Inr \<lparr>literal_type = literal_type l, literal_dims = ds,
                                   literal_data = xs\<rparr>)
          else Inl InvalidArgument
      | _ \<Rightarrow> Inl InvalidArgument)"

text \<open>
  Select needs a predicate of type PRED that is a scalar or has the dimensions of the
  two branches, and branches of one shape; it chooses element by element.
\<close>

definition lit_select :: "Literal \<Rightarrow> Literal \<Rightarrow> Literal \<Rightarrow> error + Literal" where
  "lit_select pred on_true on_false =
     (if literal_type pred = PRED \<and> literal_type on_true = literal_type on_false \<and>
         literal_dims on_true = literal_dims on_false \<and>
         (literal_dims pred = literal_dims on_true \<or> literal_dims pred = [])
      then Inr (on_true\<lparr>literal_data :=
                  map (\<lambda>(p, a, b). if p \<noteq> 0 then a else b)
                    (zip (if literal_dims pred = literal_dims on_true then literal_data pred
                          else concat (replicate (length (literal_data on_true))
                                         (literal_data pred)))
                       (zip (literal_data on_true) (literal_data on_false)))\<rparr>)
      else Inl InvalidArgument)"

fun collect :: "(error + 'a) list \<Rightarrow> error + 'a list" where
  "collect [] = Inr []"
| "collect (Inl e # rs) = Inl e"
| "collect (Inr v # rs) = (case collect rs of Inl e \<Rightarrow> Inl e | Inr vs \<Rightarrow> Inr (v # vs))"

text \<open>
  The value of a node, or the error of the first invalid operation below it. Every
  result passes the builder's validation of its shape.
\<close>

fun value_of :: "XlaOp \<Rightarrow> error + Literal" where
  "value_of (Constant l) =
     checked (if valid_literal l then Inr l else Inl InvalidArgument)"
| "value_of (Reshape operand new_sizes) =
     checked (case value_of operand of Inl e \<Rightarrow> Inl e | Inr l \<Rightarrow> lit_reshape l new_sizes)"
| "value_of (Broadcast operand broadcast_sizes) =
     checked
       (case value_of operand of Inl e \<Rightarrow> Inl e | Inr l \<Rightarrow> lit_broadcast l broadcast_sizes)"
| "value_of (Pad operand padding_value config) =
     checked
       (case value_of operand of
          Inl e \<Rightarrow> Inl e
        | Inr l \<Rightarrow>
            (case value_of padding_value of Inl e \<Rightarrow> Inl e | Inr v \<Rightarrow> lit_pad l v config))"
| "value_of (SliceInDim operand start_index limit_index stride dimno) =
     checked
       (case value_of operand of
          Inl e \<Rightarrow> Inl e
        | Inr l \<Rightarrow> lit_slice_in_dim l start_index limit_index stride dimno)"
| "value_of (ConcatInDim operands dimno) =
     checked
       (case collect (map value_of operands) of
          Inl e \<Rightarrow> Inl e
        | Inr ls \<Rightarrow> lit_concat ls dimno)"
| "value_of (Select pred on_true on_false) =
     checked
       (case value_of pred of
          Inl e \<Rightarrow> Inl e
        | Inr p \<Rightarrow>
            (case value_of on_true of
               Inl e \<Rightarrow> Inl e
             | Inr a \<Rightarrow>
                 (case value_of on_false of Inl e \<Rightarrow> Inl e | Inr b \<Rightarrow> lit_select p a b)))"

section \<open>Helpers of the repository outside the file\<close>

text \<open>
  Modelled from the spec: \<^verbatim>\<open>XlaHelpers::ShapeOfXlaOp\<close> and
  \<^verbatim>\<open>XlaHelpers::SizesOfXlaOp\<close> (\<^verbatim>\<open>helpers.h\<close>) query the shape the builder has
  inferred for a node, which is the shape of the node's value; the query fails on an
  invalid node.
\<close>

definition ShapeOfXlaOp :: "XlaOp \<Rightarrow> error + Shape" where
  "ShapeOfXlaOp op =
     (case value_of op of
        Inl e \<Rightarrow> Inl e
      | Inr l \<Rightarrow> Inr \<lparr>element_type = literal_type l,
                      dimensions = map int (literal_dims l)\<rparr>)"

definition SizesOfXlaOp :: "XlaOp \<Rightarrow> error + int list" where
  "SizesOfXlaOp op =
     (case ShapeOfXlaOp op of Inl e \<Rightarrow> Inl e | Inr shape \<Rightarrow> Inr (dimensions shape))"

text \<open>
  Modelled from the spec: \<^verbatim>\<open>XlaHelpers::ScalarValue\<close> builds a scalar constant of the
  given element type, \<^verbatim>\<open>XlaHelpers::ScalarBroadcast\<close> broadcasts such a scalar to the
  given dimensions, and \<^verbatim>\<open>GetDevicePrimitiveType\<close> (\<^verbatim>\<open>tensor_util.h\<close>) keeps the
  predicate type.
\<close>

definition ScalarValue :: "int \<Rightarrow> PrimitiveType \<Rightarrow> XlaOp" where
  "ScalarValue scalar_value type =
     Constant \<lparr>literal_type = type, literal_dims = [], literal_data = [scalar_value]\<rparr>"

definition ScalarBroadcast :: "int \<Rightarrow> PrimitiveType \<Rightarrow> int list \<Rightarrow> XlaOp" where
  "ScalarBroadcast scalar_value type dims = Broadcast (ScalarValue scalar_value type) dims"

definition GetDevicePrimitiveType :: "PrimitiveType \<Rightarrow> PrimitiveType" where
  "GetDevicePrimitiveType type = type"

section \<open>The lowering functions of data_ops.cpp\<close>

subsection \<open>Squeeze and unsqueeze\<close>

definition SqueezeTrivialDimension :: "XlaOp \<Rightarrow> nat \<Rightarrow> error + XlaOp" where
  "SqueezeTrivialDimension input dim =
     (case SizesOfXlaOp input of
        Inl e \<Rightarrow> Inl e
      | Inr input_sizes \<Rightarrow>
          if \<not> dim < length input_sizes then Inl DimensionOutOfRange
          else if input_sizes ! dim \<noteq> 1 then Inr input
          else Inr (Reshape input (take dim input_sizes @ drop (Suc dim) input_sizes)))"

definition BuildUnsqueezeDimensions :: "int list \<Rightarrow> nat \<Rightarrow> error + int list" where
  "BuildUnsqueezeDimensions dims dim =
     (if \<not> dim \<le> length dims then Inl DimensionOutOfRange
      else Inr (take dim dims @ 1 # drop dim dims))"

definition BuildUnsqueeze :: "XlaOp \<Rightarrow> nat \<Rightarrow> error + XlaOp" where
  "BuildUnsqueeze input dim =
     (case SizesOfXlaOp input of
        Inl e \<Rightarrow> Inl e
      | Inr input_sizes \<Rightarrow>
          (case BuildUnsqueezeDimensions input_sizes dim of
             Inl e \<Rightarrow> Inl e
           | Inr dims \<Rightarrow> Inr (Reshape input dims)))"

subsection \<open>Concatenate and repeat\<close>

definition BuildCat :: "XlaOp list \<Rightarrow> int \<Rightarrow> error + XlaOp" where
  "BuildCat inputs dim =
     (if \<not> length inputs > 0 then Inl EmptyInputs else Inr (ConcatInDim inputs dim))"

text \<open>
  The loop of \<^verbatim>\<open>BuildRepeat\<close> over the dimensions of the input: \<open>counts\<close> holds
  \<open>repeats[broadcast_dims + dim]\<close> for the dimensions still to do. The vector of
  \<open>count\<close> copies cannot be built for a negative count.
\<close>

fun repeat_loop :: "int list \<Rightarrow> nat \<Rightarrow> XlaOp \<Rightarrow> error + XlaOp" where
  "repeat_loop [] dim repeated = Inr repeated"
| "repeat_loop (count # counts) dim repeated =
     (if count < 0 then Inl LengthError
      else repeat_loop counts (Suc dim)
             (ConcatInDim (replicate (nat count) repeated) (int dim)))"

definition BuildRepeat :: "XlaOp \<Rightarrow> int list \<Rightarrow> error + XlaOp" where
  "BuildRepeat input repeats =
     (case SizesOfXlaOp input of
        Inl e \<Rightarrow> Inl e
      | Inr input_sizes \<Rightarrow>
          if \<not> length repeats \<ge> length input_sizes then Inl RankMismatch
          else
            (let broadcast_dims = length repeats - length input_sizes in
             case repeat_loop (take (length input_sizes) (drop broadcast_dims repeats)) 0 input of
               Inl e \<Rightarrow> Inl e
             | Inr repeated \<Rightarrow>
                 if length repeats > length input_sizes
                 then Inr (Broadcast repeated (take broadcast_dims repeats))
                 else Inr repeated))"

subsection \<open>Split\<close>



text \<open>
  The loop of \<^verbatim>\<open>BuildSplit\<close>: \<open>index\<close> is the running offset and \<open>splits\<close> the
  chunks emitted so far; \<^verbatim>\<open>break\<close> returns them. The sum \<open>index + size\<close> is a
  64-bit sum, as is the difference in \<^verbatim>\<open>ComputeSplitCount\<close>.
\<close>

fun split_loop :: "XlaOp \<Rightarrow> int \<Rightarrow> int \<Rightarrow> int list \<Rightarrow> int \<Rightarrow> XlaOp list \<Rightarrow> XlaOp list" where
  "split_loop input dim_size dim [] index splits = splits"
| "split_loop input dim_size dim (size' # rest) index splits =
     (if wrap64 (index + size') > dim_size then splits
      else split_loop input dim_size dim rest (wrap64 (index + size'))
             (splits @ [SliceInDim input index (wrap64 (index + size')) 1 dim]))"

definition BuildSplit :: "XlaOp \<Rightarrow> int list \<Rightarrow> int \<Rightarrow> error + XlaOp list" where
  "BuildSplit input split_sizes dim =
     (case SizesOfXlaOp input of
        Inl e \<Rightarrow> Inl e
      | Inr input_sizes \<Rightarrow>
          if \<not> (0 \<le> dim \<and> nat dim < length input_sizes) then Inl DimensionOutOfRange
          else Inr (split_loop input (input_sizes ! nat dim) dim split_sizes 0 []))"

subsection \<open>Resize\<close>

definition BuildResize :: "XlaOp \<Rightarrow> int list \<Rightarrow> error + XlaOp" where
  "BuildResize input size' =
     (case ShapeOfXlaOp input of
        Inl e \<Rightarrow> Inl e
      | Inr input_shape \<Rightarrow>
          (let num_elements = ElementsIn input_shape;
               r1_input = Reshape input [num_elements];
               new_num_elements = Multiply size';
               resized_input =
                 (if num_elements > new_num_elements
                  then SliceInDim r1_input 0 new_num_elements 1 0
                  else if new_num_elements > num_elements
                  then Pad r1_input (ScalarValue 0 (element_type input_shape))
                         [\<lparr>edge_padding_low = 0,
                           edge_padding_high = wrap64 (new_num_elements - num_elements),
                           interior_padding = 0\<rparr>]
                  else input)
           in Inr (Reshape resized_input size')))"

subsection \<open>Unselect\<close>

text \<open>
  The loop of \<^verbatim>\<open>BuildUnselect\<close> that fills the padding configuration, one entry
  per dimension \<open>i\<close> of the target. Its arithmetic is written without wrap-around:
  for a window that lies inside the target every intermediate value is between 0 and
  the target's size.
\<close>

function padding_config_loop ::
  "Shape \<Rightarrow> Shape \<Rightarrow> int \<Rightarrow> int \<Rightarrow> int \<Rightarrow> nat \<Rightarrow> PaddingConfigDimension list \<Rightarrow>
   error + PaddingConfigDimension list" where
  "padding_config_loop target_shape source_shape dim start stride i padding_config =
     (if i < rank target_shape then
        (if int i = dim then
           (if \<not> i < rank source_shape then Inl DimensionOutOfRange
            else
              (let size' = start + dimensions source_shape ! i +
                          (dimensions source_shape ! i - 1) * (stride - 1)
               in padding_config_loop target_shape source_shape dim start stride (Suc i)
                    (padding_config @
                       [\<lparr>edge_padding_low = start,
                         edge_padding_high = dimensions target_shape ! i - size',
                         interior_padding = stride - 1\<rparr>])))
         else if \<not> i < rank source_shape then Inl DimensionOutOfRange
         else if dimensions target_shape ! i \<noteq> dimensions source_shape ! i
           then Inl ShapeMismatch
         else padding_config_loop target_shape source_shape dim start stride (Suc i)
                (padding_config @
                   [\<lparr>edge_padding_low = 0, edge_padding_high = 0, interior_padding = 0\<rparr>]))
      else Inr padding_config)"
  by pat_completeness auto
termination
  by (relation "measure (\<lambda>(target_shape, source_shape, dim, start, stride, i, padding_config).
        rank target_shape - i)") auto

declare padding_config_loop.simps [simp del]

definition BuildUnselect ::
  "XlaOp \<Rightarrow> XlaOp \<Rightarrow> int \<Rightarrow> int \<Rightarrow> int \<Rightarrow> int \<Rightarrow> error + XlaOp" where
  "BuildUnselect target source dim start end_index stride =
     (case ShapeOfXlaOp target of
        Inl e \<Rightarrow> Inl e
      | Inr target_shape \<Rightarrow>
          (case ShapeOfXlaOp source of
             Inl e \<Rightarrow> Inl e
           | Inr source_shape \<Rightarrow>
               if \<not> (0 \<le> dim \<and> nat dim < rank target_shape \<and> nat dim < rank source_shape)
               then Inl DimensionOutOfRange
               else if dimensions target_shape ! nat dim = dimensions source_shape ! nat dim
               then
                 (if start \<noteq> 0 then Inl FullCoverageWindowMismatch
                  else if stride \<noteq> 1 then Inl FullCoverageWindowMismatch
                  else if end_index \<noteq> dimensions target_shape ! nat dim
                    then Inl FullCoverageWindowMismatch
                  else Inr source)
               else
                 (let pred_type = GetDevicePrimitiveType PRED;
                      source_true = ScalarBroadcast 1 pred_type (dimensions source_shape);
                      pred_zero = ScalarValue 0 pred_type;
                      zero = ScalarValue 0 (element_type target_shape)
                  in case padding_config_loop target_shape source_shape dim start stride 0 [] of
                       Inl e \<Rightarrow> Inl e
                     | Inr padding_config \<Rightarrow>
                         Inr (Select (Pad source_true pred_zero padding_config)
                                (Pad source zero padding_config) target))))"

section \<open>Definitions that follow the words of the specification\<close>

text \<open>The value of the node a lowering function returns, if it returns one.\<close>

definition value_of_result :: "error + XlaOp \<Rightarrow> error + Literal" where
  "value_of_result r = (case r of Inl e \<Rightarrow> Inl e | Inr op \<Rightarrow> value_of op)"


text \<open>
  Split as the specification describes it: a running offset and a counter of the
  remaining length; the walk stops at the first size that exceeds the remaining length.
\<close>

fun split_spec :: "XlaOp \<Rightarrow> int \<Rightarrow> int \<Rightarrow> int \<Rightarrow> int list \<Rightarrow> XlaOp list" where
  "split_spec input dim offset remaining [] = []"
| "split_spec input dim offset remaining (s # rest) =
     (if s > remaining then []
      else SliceInDim input offset (offset + s) 1 dim #
           split_spec input dim (offset + s) (remaining - s) rest)"

text \<open>
  The running sums of the split sizes, from the offset \<open>acc\<close>, are 64-bit values;
  and so are the remaining lengths, from \<open>remaining\<close>.
\<close>

fun running_sums_fit :: "int \<Rightarrow> int list \<Rightarrow> bool" where
  "running_sums_fit acc [] = True"
| "running_sums_fit acc (s # rest) = (fits64 (acc + s) \<and> running_sums_fit (acc + s) rest)"


text \<open>The concrete nodes of the end-to-end examples.\<close>

definition example_target :: XlaOp where
  "example_target = Constant \<lparr>literal_type = S64, literal_dims = [5], literal_data = [0, 0, 0, 0, 0]\<rparr>"

definition example_source :: XlaOp where
  "example_source = Constant \<lparr>literal_type = S64, literal_dims = [2], literal_data = [9, 9]\<rparr>"

definition example_matrix :: XlaOp where
  "example_matrix =
     Constant \<lparr>literal_type = S64, literal_dims = [2, 3], literal_data = [1, 2, 3, 4, 5, 6]\<rparr>"

text \<open>Further nodes for concrete instances.\<close>

definition example_wide :: XlaOp where
  "example_wide =
     Constant \<lparr>literal_type = S64, literal_dims = [2, 5],
               literal_data = [0, 1, 2, 3, 4, 5, 6, 7, 8, 9]\<rparr>"

definition example_tall :: XlaOp where
  "example_tall =
     Constant \<lparr>literal_type = S64, literal_dims = [5, 2],
               literal_data = [0, 1, 2, 3, 4, 5, 6, 7, 8, 9]\<rparr>"

definition example_thin :: XlaOp where
  "example_thin =
     Constant \<lparr>literal_type = S64, literal_dims = [2, 1, 3], literal_data = [1, 2, 3, 4, 5, 6]\<rparr>"

text \<open>
  A list of blocks has the layout of a literal viewed along one dimension when there
  are \<open>outer\<close> blocks of \<open>n\<close> rows of \<open>inner\<close> elements.
\<close>

definition block_shaped :: "nat \<Rightarrow> nat \<Rightarrow> nat \<Rightarrow> 'a list list list \<Rightarrow> bool" where
  "block_shaped outer n inner R \<longleftrightarrow>
     length R = outer \<and> (\<forall>B\<in>set R. length B = n \<and> (\<forall>r\<in>set B. length r = inner))"

text \<open>
  Resize as the specification describes it: the first \<open>new_count\<close> elements of the
  flattened input, followed by zeros when the input is shorter; and the node that
  computes them from the flattened input.
\<close>

definition resized_data :: "nat \<Rightarrow> int list \<Rightarrow> int list" where
  "resized_data new_count xs = take new_count xs @ replicate (new_count - length xs) 0"

definition resized_node :: "XlaOp \<Rightarrow> PrimitiveType \<Rightarrow> int \<Rightarrow> int \<Rightarrow> XlaOp" where
  "resized_node input type num_elements new_num_elements =
     (if new_num_elements < num_elements
      then SliceInDim (Reshape input [num_elements]) 0 new_num_elements 1 0
      else if num_elements < new_num_elements
      then Pad (Reshape input [num_elements]) (ScalarValue 0 type)
             [\<lparr>edge_padding_low = 0, edge_padding_high = new_num_elements - num_elements,
               interior_padding = 0\<rparr>]
      else input)"

text \<open>
  The value of the chunk of \<open>s\<close> rows at offset \<open>off\<close> along dimension \<open>d\<close> of a
  literal, and the values of consecutive chunks of the given sizes.
\<close>

definition chunk :: "Literal \<Rightarrow> nat \<Rightarrow> nat \<Rightarrow> nat \<Rightarrow> Literal" where
  "chunk l d off s =
     l\<lparr>literal_dims := (literal_dims l)[d := s],
       literal_data :=
         flatten_rows
           (map (\<lambda>rows. take s (drop off rows))
              (rows_of (outer_count d (literal_dims l)) (literal_dims l ! d)
                 (inner_count d (literal_dims l)) (literal_data l)))\<rparr>"

fun chunks :: "Literal \<Rightarrow> nat \<Rightarrow> nat \<Rightarrow> nat list \<Rightarrow> Literal list" where
  "chunks l d off [] = []"
| "chunks l d off (s # ss) = chunk l d off s # chunks l d (off + s) ss"

text \<open>Nodes for the instances of Split followed by Concat.\<close>

definition example_empty :: XlaOp where
  "example_empty = Constant \<lparr>literal_type = S64, literal_dims = [0], literal_data = []\<rparr>"


definition example_pair :: XlaOp where
  "example_pair = Constant \<lparr>literal_type = S64, literal_dims = [2], literal_data = [7, 8]\<rparr>"

section \<open>Facts about 64-bit arithmetic\<close>

lemma wrap64_fits: "fits64 x \<Longrightarrow> wrap64 x = x"
  by (simp add: fits64_def wrap64_def)

lemma fits64_wrap64: "fits64 (wrap64 x)"
proof -
  have "0 \<le> (x + 2 ^ 63) mod 2 ^ 64" "(x + 2 ^ 63) mod 2 ^ 64 < (2 ^ 64 :: int)"
    by simp_all
  then show ?thesis by (simp add: fits64_def wrap64_def)
qed

lemma wrap_mult_left:
  "(((a + h) mod m - h) * b + h) mod m = (a * b + h) mod (m :: int)"
proof -
  have "((a + h) mod m - h) mod m = a mod m" by (simp add: mod_simps)
  then have "(((a + h) mod m - h) * b) mod m = (a * b) mod m"
    by (rule mod_mult_cong) simp
  then show ?thesis by (rule mod_add_cong) simp
qed

lemma wrap64_mult_left: "wrap64 (wrap64 a * b) = wrap64 (a * b)"
  unfolding wrap64_def by (simp only: wrap_mult_left)

lemma wrap64_idem [simp]: "wrap64 (wrap64 x) = wrap64 x"
  by (simp add: wrap64_fits fits64_wrap64)

lemma wrap64_one [simp]: "wrap64 1 = 1"
  by (simp add: wrap64_def)

lemma Multiply_fold:
  "fold (\<lambda>s acc. wrap64 (acc * s)) sizes (wrap64 a) = wrap64 (a * prod_list sizes)"
proof (induction sizes arbitrary: a)
  case Nil
  then show ?case by simp
next
  case (Cons s sizes)
  have "fold (\<lambda>s acc. wrap64 (acc * s)) (s # sizes) (wrap64 a) =
      fold (\<lambda>s acc. wrap64 (acc * s)) sizes (wrap64 (a * s))"
    by (simp add: wrap64_mult_left)
  with Cons.IH [of "a * s"] show ?case by (simp add: mult.assoc)
qed

lemma Multiply_wrap: "Multiply sizes = wrap64 (prod_list sizes)"
  using Multiply_fold [of sizes 1] by (simp add: Multiply_def)

lemma Multiply_prod_list: "fits64 (prod_list sizes) \<Longrightarrow> Multiply sizes = prod_list sizes"
  by (simp add: Multiply_wrap wrap64_fits)

lemma fits64_nat: "fits64 (int n) \<longleftrightarrow> int n < 2 ^ 63"
  by (simp add: fits64_def)

section \<open>Facts about GetCompleteShape\<close>

lemma cpp_div_exact: "b \<noteq> 0 \<Longrightarrow> cpp_div (b * k) b = k"
proof -
  assume b: "b \<noteq> 0"
  have "\<bar>b * k\<bar> div \<bar>b\<bar> = \<bar>k\<bar>" using b by (simp add: abs_mult)
  then have "cpp_div (b * k) b = (sgn b * sgn b) * (sgn k * \<bar>k\<bar>)"
    by (simp add: cpp_div_def sgn_mult)
  also have "sgn b * sgn b = 1" using b by (simp add: sgn_if)
  also have "sgn k * \<bar>k\<bar> = k" by (simp add: sgn_if)
  finally show ?thesis by simp
qed

lemma cpp_mod_zero_iff: "b \<noteq> 0 \<Longrightarrow> cpp_mod a b = 0 \<longleftrightarrow> b dvd a"
proof
  assume "cpp_mod a b = 0"
  then have "a = b * cpp_div a b" by (simp add: cpp_mod_def)
  then show "b dvd a" by (metis dvd_triv_left)
next
  assume b: "b \<noteq> 0" and d: "b dvd a"
  then obtain k where k: "a = b * k" by (auto simp: dvd_def)
  show "cpp_mod a b = 0" using b by (simp add: cpp_mod_def k cpp_div_exact)
qed

lemma scan_nonneg:
  "list_all (\<lambda>s. 0 \<le> s) xs \<Longrightarrow>
   scan_output_sizes xs d inc (wrap64 c) = Inr (inc, wrap64 (c * prod_list xs))"
proof (induction xs arbitrary: d c)
  case Nil
  then show ?case by simp
next
  case (Cons x xs)
  then have "0 \<le> x" "list_all (\<lambda>s. 0 \<le> s) xs" by simp_all
  with Cons.IH [of "Suc d" "c * x"] show ?case by (simp add: wrap64_mult_left mult.assoc)
qed

lemma filter_nonneg: "list_all (\<lambda>s. (0::int) \<le> s) xs \<Longrightarrow> filter (\<lambda>s. 0 \<le> s) xs = xs"
  by (induction xs) simp_all

lemma known_elements_product_nonneg: "0 \<le> known_elements_product xs"
  by (induction xs) (simp_all add: known_elements_product_def)

lemma scan_one:
  "i < length xs \<Longrightarrow> xs ! i < 0 \<Longrightarrow> \<forall>j<length xs. j \<noteq> i \<longrightarrow> 0 \<le> xs ! j \<Longrightarrow>
   scan_output_sizes xs d None (wrap64 c) =
     Inr (Some (d + i), wrap64 (c * known_elements_product xs))"
proof (induction xs arbitrary: i d c)
  case Nil
  then show ?case by simp
next
  case (Cons x xs)
  show ?case
  proof (cases i)
    case 0
    with Cons.prems have x: "x < 0" by simp
    have "\<forall>j<length xs. 0 \<le> xs ! j"
    proof (intro allI impI)
      fix j assume "j < length xs"
      with Cons.prems(3) 0 have "0 \<le> (x # xs) ! Suc j" by (metis Suc_less_eq length_Cons nat.distinct(1))
      then show "0 \<le> xs ! j" by simp
    qed
    then have all: "list_all (\<lambda>s. 0 \<le> s) xs" by (simp add: list_all_length)
    show ?thesis using x 0 all
      by (simp add: scan_nonneg filter_nonneg known_elements_product_def)
  next
    case (Suc i')
    with Cons.prems have x: "0 \<le> x" by force
    have i': "i' < length xs" "xs ! i' < 0" using Cons.prems Suc by simp_all
    have oth: "\<forall>j<length xs. j \<noteq> i' \<longrightarrow> 0 \<le> xs ! j"
    proof (intro allI impI)
      fix j assume "j < length xs" "j \<noteq> i'"
      with Cons.prems(3) Suc have "0 \<le> (x # xs) ! Suc j" by (metis Suc_less_eq length_Cons nat.inject)
      then show "0 \<le> xs ! j" by simp
    qed
    show ?thesis using x Suc Cons.IH [OF i' oth, of "Suc d" "c * x"]
      by (simp add: known_elements_product_def mult.assoc wrap64_mult_left)
  qed
qed

text \<open>
  Claim C2, as amended. Let the products below fit in a signed 64-bit integer. For
  target sizes without a negative entry, \<open>GetCompleteShape\<close> returns them unchanged when
  their product equals the product of the source sizes, and fails with
  \<open>ShapeElementCountMismatch\<close> otherwise. For target sizes whose only negative entry is
  at index \<open>i\<close> and whose non-negative entries have a product different from zero, it
  fails with \<open>ShapeElementCountMismatch\<close> when the remainder of the source product by
  that product is not zero, and otherwise returns the target sizes with entry \<open>i\<close>
  replaced by the quotient and every other entry unchanged.
\<close>

theorem GetCompleteShape_complete:
  "(nonneg_sizes target_sizes \<and> fits64 (prod_list target_sizes) \<and>
    fits64 (prod_list source_sizes) \<longrightarrow>
      GetCompleteShape target_sizes source_sizes =
        (if prod_list source_sizes = prod_list target_sizes then Inr target_sizes
         else Inl ShapeElementCountMismatch)) \<and>
   (i < length target_sizes \<and> target_sizes ! i < 0 \<and>
    (\<forall>j<length target_sizes. j \<noteq> i \<longrightarrow> 0 \<le> target_sizes ! j) \<and>
    known_elements_product target_sizes \<noteq> 0 \<and>
    fits64 (known_elements_product target_sizes) \<and> fits64 (prod_list source_sizes) \<longrightarrow>
      GetCompleteShape target_sizes source_sizes =
        (if cpp_mod (prod_list source_sizes) (known_elements_product target_sizes) = 0
         then Inr (target_sizes
                [i := cpp_div (prod_list source_sizes) (known_elements_product target_sizes)])
         else Inl ShapeElementCountMismatch))"
proof (intro conjI impI)
  assume a: "nonneg_sizes target_sizes \<and> fits64 (prod_list target_sizes) \<and>
    fits64 (prod_list source_sizes)"
  then have "scan_output_sizes target_sizes 0 None 1 = Inr (None, wrap64 (prod_list target_sizes))"
    using scan_nonneg [of target_sizes 0 None 1] by (simp add: nonneg_sizes_def)
  with a show "GetCompleteShape target_sizes source_sizes =
        (if prod_list source_sizes = prod_list target_sizes then Inr target_sizes
         else Inl ShapeElementCountMismatch)"
    by (simp add: GetCompleteShape_def Multiply_prod_list)
next
  assume a: "i < length target_sizes \<and> target_sizes ! i < 0 \<and>
    (\<forall>j<length target_sizes. j \<noteq> i \<longrightarrow> 0 \<le> target_sizes ! j) \<and>
    known_elements_product target_sizes \<noteq> 0 \<and>
    fits64 (known_elements_product target_sizes) \<and> fits64 (prod_list source_sizes)"
  then have "scan_output_sizes target_sizes 0 None 1 =
      Inr (Some i, known_elements_product target_sizes)"
    using scan_one [of i target_sizes 0 1] by (simp add: wrap64_fits)
  moreover from a known_elements_product_nonneg [of target_sizes]
  have "known_elements_product target_sizes \<noteq> - 1" by simp
  ultimately show "GetCompleteShape target_sizes source_sizes =
        (if cpp_mod (prod_list source_sizes) (known_elements_product target_sizes) = 0
         then Inr (target_sizes
                [i := cpp_div (prod_list source_sizes) (known_elements_product target_sizes)])
         else Inl ShapeElementCountMismatch)"
    using a by (simp add: GetCompleteShape_def Multiply_prod_list)
qed

theorem GetCompleteShape_complete_witness:
  "GetCompleteShape [2, 3, 4] [4, 6] = Inr [2, 3, 4] \<and>
   GetCompleteShape [2, 3, 4] [5, 5] = Inl ShapeElementCountMismatch \<and>
   GetCompleteShape [-1, 4] [2, 6] = Inr [3, 4] \<and>
   GetCompleteShape [5, -1] [2, 6] = Inl ShapeElementCountMismatch"
  using GetCompleteShape_complete [of "[2, 3, 4]" "[4, 6]" 0]
    GetCompleteShape_complete [of "[2, 3, 4]" "[5, 5]" 0]
    GetCompleteShape_complete [of "[-1, 4]" "[2, 6]" 0]
    GetCompleteShape_complete [of "[5, -1]" "[2, 6]" 1]
  by (simp add: known_elements_product_def cpp_mod_def cpp_div_def less_Suc_eq nonneg_sizes_def
      fits64_def)

text \<open>
  Claim C2 as stated fails where a product leaves the 64-bit range: the target sizes
  \<open>[2^32, 2^32]\<close> have the product \<open>2^64\<close>, which the code computes as 0, so for
  source sizes \<open>[0]\<close> it returns the target sizes although the products differ.
\<close>

theorem GetCompleteShape_overflow_counterexample:
  "GetCompleteShape [4294967296, 4294967296] [0] = Inr [4294967296, 4294967296] \<and>
   prod_list [4294967296, 4294967296] \<noteq> prod_list [0 :: int]"
  by (simp add: GetCompleteShape_def Multiply_def wrap64_def)

text \<open>
  Where the non-negative entries multiply to zero the division by zero is neither
  \<open>ShapeElementCountMismatch\<close> nor a returned shape.
\<close>

lemma GetCompleteShape_zero_known:
  "GetCompleteShape [-1, 0] [0] = Inl DivisionByZero"
  by (simp add: GetCompleteShape_def Multiply_def wrap64_def)

text \<open>
  Claim C3. With a zero-sized dimension next to the incomplete entry the function
  divides by zero: it neither returns a shape nor raises a documented error.
\<close>

theorem GetCompleteShape_zero_sized_fails:
  "GetCompleteShape [0, -1] [2, 3] = Inl DivisionByZero"
  by (simp add: GetCompleteShape_def Multiply_def wrap64_def)

lemma scan_Some_keeps:
  "scan_output_sizes xs d (Some j) (wrap64 c) = Inr (r, k) \<Longrightarrow>
     r = Some j \<and> k = wrap64 (c * prod_list xs) \<and> list_all (\<lambda>s. 0 \<le> s) xs"
proof (induction xs arbitrary: d c)
  case Nil
  then show ?case by simp
next
  case (Cons x xs)
  from Cons.prems have x: "0 \<le> x" by (simp split: if_splits)
  with Cons.prems have "scan_output_sizes xs (Suc d) (Some j) (wrap64 (c * x)) = Inr (r, k)"
    by (simp add: wrap64_mult_left)
  from Cons.IH [OF this] x show ?case by (simp add: mult.assoc)
qed

lemma scan_None_result:
  "scan_output_sizes xs d None (wrap64 c) = Inr (None, k) \<Longrightarrow> k = wrap64 (c * prod_list xs)"
proof (induction xs arbitrary: d c)
  case Nil
  then show ?case by simp
next
  case (Cons x xs)
  have x: "0 \<le> x"
  proof (rule ccontr)
    assume "\<not> 0 \<le> x"
    with Cons.prems have "scan_output_sizes xs (Suc d) (Some d) (wrap64 c) = Inr (None, k)" by simp
    from scan_Some_keeps [OF this] show False by simp
  qed
  with Cons.prems have "scan_output_sizes xs (Suc d) None (wrap64 (c * x)) = Inr (None, k)"
    by (simp add: wrap64_mult_left)
  from Cons.IH [OF this] show ?case by (simp add: mult.assoc)
qed

lemma wrap64_mult_right: "wrap64 (a * wrap64 b) = wrap64 (a * b)"
  using wrap64_mult_left [of b a] by (simp add: mult.commute)

lemma scan_Some_result:
  "scan_output_sizes xs d None (wrap64 c) = Inr (Some i, k) \<Longrightarrow>
     d \<le> i \<and> i - d < length xs \<and>
     (\<forall>v. wrap64 (c * prod_list (xs[i - d := v])) = wrap64 (v * k))"
proof (induction xs arbitrary: d c)
  case Nil
  then show ?case by simp
next
  case (Cons x xs)
  show ?case
  proof (cases "x < 0")
    case True
    with Cons.prems have "scan_output_sizes xs (Suc d) (Some d) (wrap64 c) = Inr (Some i, k)"
      by simp
    from scan_Some_keeps [OF this] have i: "i = d" and k: "k = wrap64 (c * prod_list xs)"
      by simp_all
    have "\<And>v. wrap64 (c * (v * prod_list xs)) = wrap64 (v * wrap64 (c * prod_list xs))"
      by (simp add: wrap64_mult_right mult.left_commute)
    with i k show ?thesis by simp
  next
    case False
    with Cons.prems have "scan_output_sizes xs (Suc d) None (wrap64 (c * x)) = Inr (Some i, k)"
      by (simp add: wrap64_mult_left)
    from Cons.IH [OF this] have ih: "Suc d \<le> i" "i - Suc d < length xs"
      "\<And>v. wrap64 (c * x * prod_list (xs[i - Suc d := v])) = wrap64 (v * k)" by auto
    from ih(1) obtain m where m: "i - d = Suc m" "i - Suc d = m" by (metis Suc_diff_Suc Suc_le_lessD)
    show ?thesis using ih m by (auto simp: mult.assoc)
  qed
qed

text \<open>
  Whenever a shape is returned, its product and the product of the source sizes are
  the same 64-bit value.
\<close>

lemma GetCompleteShape_product:
  "GetCompleteShape target_sizes source_sizes = Inr r \<Longrightarrow>
     wrap64 (prod_list r) = wrap64 (prod_list source_sizes)"
proof -
  assume a: "GetCompleteShape target_sizes source_sizes = Inr r"
  then obtain inc k where s: "scan_output_sizes target_sizes 0 None (wrap64 1) = Inr (inc, k)"
    by (auto simp: GetCompleteShape_def split: sum.splits)
  show ?thesis
  proof (cases inc)
    case None
    with a s show ?thesis
      by (auto simp: GetCompleteShape_def Multiply_wrap Let_def split: if_splits)
  next
    case (Some i)
    let ?T = "wrap64 (prod_list source_sizes)"
    from a s Some have k: "k \<noteq> 0" "cpp_mod ?T k = 0"
      and r: "r = target_sizes[i := cpp_div ?T k]"
      by (auto simp: GetCompleteShape_def Multiply_wrap Let_def split: if_splits)
    from scan_Some_result [OF s [unfolded Some]]
    have "wrap64 (prod_list r) = wrap64 (cpp_div ?T k * k)" by (simp add: r)
    also from k have "cpp_div ?T k * k = ?T" by (simp add: cpp_mod_def mult.commute)
    finally show ?thesis by simp
  qed
qed

section \<open>Facts about validated shapes\<close>

lemma checked_Inl [simp]: "checked (Inl e) = Inl e"
  by (simp add: checked_def)

lemma checked_Inr: "dims_fit (literal_dims l) \<Longrightarrow> checked (Inr l) = Inr l"
  by (simp add: checked_def)

lemma checked_Inr_iff: "checked r = Inr l \<longleftrightarrow> r = Inr l \<and> dims_fit (literal_dims l)"
  by (cases r) (auto simp: checked_def)

lemma value_of_dims_fit: "value_of op = Inr l \<Longrightarrow> dims_fit (literal_dims l)"
  by (cases op) (simp_all add: checked_Inr_iff)

lemma dims_fit_Nil [simp]: "dims_fit []"
  by (simp add: dims_fit_def fits64_def)

section \<open>Facts about Unselect\<close>


lemma SizesOfXlaOp_value:
  "SizesOfXlaOp op = Inr sizes \<longleftrightarrow>
     (\<exists>l. value_of op = Inr l \<and> sizes = map int (literal_dims l))"
  by (auto simp: SizesOfXlaOp_def ShapeOfXlaOp_def split: sum.splits)

lemma SizesOfXlaOp_Shape:
  "ShapeOfXlaOp op = Inr shape \<Longrightarrow> SizesOfXlaOp op = Inr (dimensions shape)"
  by (simp add: SizesOfXlaOp_def)


lemma padding_config_loop_mismatch:
  "rank source_shape = rank target_shape \<Longrightarrow>
   i \<le> j \<Longrightarrow> j < rank target_shape \<Longrightarrow> int j \<noteq> dim \<Longrightarrow>
   dimensions target_shape ! j \<noteq> dimensions source_shape ! j \<Longrightarrow>
   padding_config_loop target_shape source_shape dim start stride i padding_config =
     Inl ShapeMismatch"
proof (induction target_shape source_shape dim start stride i padding_config
    rule: padding_config_loop.induct)
  case (1 target_shape source_shape dim start stride i padding_config)
  from "1.prems" have lt: "i < rank target_shape" by simp
  show ?case
  proof (cases "int i = dim")
    case d: True
    with "1.prems" have "Suc i \<le> j" by (cases "i = j") auto
    from "1.IH"(1) [OF lt d _ refl "1.prems"(1) this "1.prems"(3,4,5)] lt "1.prems"(1)
    show ?thesis by (subst padding_config_loop.simps) (simp add: d Let_def)
  next
    case d: False
    show ?thesis
    proof (cases "dimensions target_shape ! i = dimensions source_shape ! i")
      case False
      with lt d "1.prems"(1) show ?thesis by (subst padding_config_loop.simps) simp
    next
      case True
      with "1.prems" have "Suc i \<le> j" by (cases "i = j") auto
      from "1.IH"(2) [OF lt d _ _ "1.prems"(1) this "1.prems"(3,4,5)] lt "1.prems"(1) True
      show ?thesis by (subst padding_config_loop.simps) (simp add: d)
    qed
  qed
qed

text \<open>
  Claim C7. When target and source have the same size along \<open>dim\<close>, Unselect returns
  the source node itself if \<open>start = 0\<close>, \<open>stride = 1\<close> and \<open>end\<close> is that size,
  and fails with \<open>FullCoverageWindowMismatch\<close>, returning no node, otherwise.
\<close>

theorem BuildUnselect_fast_path:
  assumes "ShapeOfXlaOp target = Inr target_shape"
    and "ShapeOfXlaOp source = Inr source_shape"
    and "0 \<le> dim" and "nat dim < rank target_shape" and "nat dim < rank source_shape"
    and "dimensions target_shape ! nat dim = dimensions source_shape ! nat dim"
  shows "BuildUnselect target source dim start end_index stride =
           (if start = 0 \<and> stride = 1 \<and> end_index = dimensions target_shape ! nat dim
            then Inr source else Inl FullCoverageWindowMismatch)"
  using assms by (simp add: BuildUnselect_def)

lemma concat_replicate_single: "concat (replicate n [x]) = replicate n x"
  by (induction n) simp_all

lemma map_nat_comp_int: "map (nat \<circ> int) ds = ds"
  by (induction ds) simp_all

lemma nonneg_map_int: "nonneg_sizes (map int ds)"
  by (simp add: nonneg_sizes_def list_all_iff)





lemma example_shapes:
  "ShapeOfXlaOp example_target = Inr \<lparr>element_type = S64, dimensions = [5]\<rparr>"
  "ShapeOfXlaOp example_source = Inr \<lparr>element_type = S64, dimensions = [2]\<rparr>"
  by (simp_all add: ShapeOfXlaOp_def example_target_def example_source_def valid_literal_def checked_def dims_fit_def fits64_def)


section \<open>Facts about Split\<close>

lemma split_loop_spec:
  "running_sums_fit index split_sizes \<Longrightarrow>
   split_loop input dim_size dim split_sizes index splits =
     splits @ split_spec input dim index (dim_size - index) split_sizes"
proof (induction split_sizes arbitrary: index splits)
  case Nil
  then show ?case by simp
next
  case (Cons s rest)
  from Cons.prems have w: "wrap64 (index + s) = index + s"
    and r: "running_sums_fit (index + s) rest" by (simp_all add: wrap64_fits)
  show ?case by (simp add: w Cons.IH [OF r] diff_diff_eq)
qed






lemma example_matrix_sizes: "SizesOfXlaOp example_matrix = Inr [2, 3]"
  by (simp add: SizesOfXlaOp_def ShapeOfXlaOp_def example_matrix_def valid_literal_def
      checked_def dims_fit_def fits64_def)




section \<open>The fast path of Unselect\<close>

lemma example_tall_shape:
  "ShapeOfXlaOp example_tall = Inr \<lparr>element_type = S64, dimensions = [5, 2]\<rparr>"
  by (simp add: ShapeOfXlaOp_def example_tall_def valid_literal_def checked_def dims_fit_def fits64_def)

lemma example_matrix_shape:
  "ShapeOfXlaOp example_matrix = Inr \<lparr>element_type = S64, dimensions = [2, 3]\<rparr>"
  by (simp add: ShapeOfXlaOp_def example_matrix_def valid_literal_def checked_def dims_fit_def fits64_def)

lemma example_wide_shape:
  "ShapeOfXlaOp example_wide = Inr \<lparr>element_type = S64, dimensions = [2, 5]\<rparr>"
  by (simp add: ShapeOfXlaOp_def example_wide_def valid_literal_def checked_def dims_fit_def fits64_def)

theorem BuildUnselect_fast_path_witness:
  "BuildUnselect example_target example_target 0 0 5 1 = Inr example_target \<and>
   BuildUnselect example_target example_target 0 1 5 1 = Inl FullCoverageWindowMismatch \<and>
   BuildUnselect example_target example_target 0 0 5 2 = Inl FullCoverageWindowMismatch \<and>
   BuildUnselect example_target example_target 0 0 4 1 = Inl FullCoverageWindowMismatch"
  using BuildUnselect_fast_path [OF example_shapes(1) example_shapes(1), of 0 0 5 1]
    BuildUnselect_fast_path [OF example_shapes(1) example_shapes(1), of 0 1 5 1]
    BuildUnselect_fast_path [OF example_shapes(1) example_shapes(1), of 0 0 5 2]
    BuildUnselect_fast_path [OF example_shapes(1) example_shapes(1), of 0 0 4 1]
  by (simp add: rank_def)

text \<open>
  Claim C10. The fast path of Unselect is taken on equality of the sizes along \<open>dim\<close>
  alone: with \<open>start = 0\<close>, \<open>stride = 1\<close> and \<open>end\<close> that size the source is
  returned whatever the other dimensions are. The comparison of the other dimensions
  that fails with \<open>ShapeMismatch\<close> belongs to the general path only. So there are a
  target of shape \<open>[2, 3]\<close> and a source of shape \<open>[2, 5]\<close> for which Unselect along
  dimension 0 returns the source, whose shape is not the target's.
\<close>

theorem BuildUnselect_fast_path_unchecked:
  "(ShapeOfXlaOp target = Inr target_shape \<and> ShapeOfXlaOp source = Inr source_shape \<and>
    0 \<le> dim \<and> nat dim < rank target_shape \<and> nat dim < rank source_shape \<and>
    dimensions target_shape ! nat dim = dimensions source_shape ! nat dim \<longrightarrow>
      BuildUnselect target source dim 0 (dimensions target_shape ! nat dim) 1 = Inr source) \<and>
   (ShapeOfXlaOp target = Inr target_shape \<and> ShapeOfXlaOp source = Inr source_shape \<and>
    0 \<le> dim \<and> nat dim < rank target_shape \<and> rank source_shape = rank target_shape \<and>
    dimensions target_shape ! nat dim \<noteq> dimensions source_shape ! nat dim \<and>
    j < rank target_shape \<and> int j \<noteq> dim \<and>
    dimensions target_shape ! j \<noteq> dimensions source_shape ! j \<longrightarrow>
      BuildUnselect target source dim start end_index stride = Inl ShapeMismatch) \<and>
   (ShapeOfXlaOp example_matrix = Inr \<lparr>element_type = S64, dimensions = [2, 3]\<rparr> \<and>
    ShapeOfXlaOp example_wide = Inr \<lparr>element_type = S64, dimensions = [2, 5]\<rparr> \<and>
    BuildUnselect example_matrix example_wide 0 0 2 1 = Inr example_wide \<and>
    ShapeOfXlaOp example_wide \<noteq> ShapeOfXlaOp example_matrix)"
proof (intro conjI impI)
  assume "ShapeOfXlaOp target = Inr target_shape \<and> ShapeOfXlaOp source = Inr source_shape \<and>
    0 \<le> dim \<and> nat dim < rank target_shape \<and> nat dim < rank source_shape \<and>
    dimensions target_shape ! nat dim = dimensions source_shape ! nat dim"
  then show "BuildUnselect target source dim 0 (dimensions target_shape ! nat dim) 1 = Inr source"
    by (simp add: BuildUnselect_def)
next
  assume a: "ShapeOfXlaOp target = Inr target_shape \<and> ShapeOfXlaOp source = Inr source_shape \<and>
    0 \<le> dim \<and> nat dim < rank target_shape \<and> rank source_shape = rank target_shape \<and>
    dimensions target_shape ! nat dim \<noteq> dimensions source_shape ! nat dim \<and>
    j < rank target_shape \<and> int j \<noteq> dim \<and>
    dimensions target_shape ! j \<noteq> dimensions source_shape ! j"
  then have "padding_config_loop target_shape source_shape dim start stride 0 [] = Inl ShapeMismatch"
    by (intro padding_config_loop_mismatch [of _ _ 0 j]) simp_all
  with a show "BuildUnselect target source dim start end_index stride = Inl ShapeMismatch"
    by (simp add: BuildUnselect_def)
next
  show "BuildUnselect example_matrix example_wide 0 0 2 1 = Inr example_wide"
    by (simp add: BuildUnselect_def example_matrix_shape example_wide_shape rank_def)
qed (simp_all add: example_matrix_shape example_wide_shape)

theorem BuildUnselect_fast_path_unchecked_witness:
  "BuildUnselect example_matrix example_wide 0 0 2 1 = Inr example_wide \<and>
   BuildUnselect example_matrix example_tall 0 0 2 1 = Inl ShapeMismatch"
  using BuildUnselect_fast_path_unchecked
    [of example_matrix "\<lparr>element_type = S64, dimensions = [2, 3]\<rparr>" example_wide
        "\<lparr>element_type = S64, dimensions = [2, 5]\<rparr>" 0]
    BuildUnselect_fast_path_unchecked
    [of example_matrix "\<lparr>element_type = S64, dimensions = [2, 3]\<rparr>" example_tall
        "\<lparr>element_type = S64, dimensions = [5, 2]\<rparr>" 0 1 0 2 1]
  by (simp add: example_matrix_shape example_wide_shape example_tall_shape rank_def)

section \<open>Facts about squeeze and unsqueeze\<close>

lemma prod_take_drop: "prod_list (take n xs) * prod_list (drop n xs) = (prod_list xs :: nat)"
  by (metis append_take_drop_id prod_list.append)

lemma prod_take_nth_drop:
  "d < length ds \<Longrightarrow> prod_list (take d ds) * (ds ! d * prod_list (drop (Suc d) ds)) = (prod_list ds :: nat)"
  by (metis Cons_nth_drop_Suc prod_list.Cons prod_take_drop)

lemma insert_one_map_int:
  "take n (map int xs) @ 1 # drop n (map int xs) = map int (take n xs @ 1 # drop n xs)"
  by (simp add: take_map drop_map)

lemma value_of_Reshape_dims:
  assumes "value_of input = Inr l" and "prod_list ds = prod_list (literal_dims l)"
    and "list_all (\<lambda>d. fits64 (int d)) ds"
  shows "value_of (Reshape input (map int ds)) = Inr (l\<lparr>literal_dims := ds\<rparr>)"
proof -
  from value_of_dims_fit [OF assms(1)] assms(2,3) have "dims_fit ds" by (simp add: dims_fit_def)
  with assms(1,2) show ?thesis
    by (simp add: lit_reshape_def nonneg_map_int map_nat_comp_int checked_Inr)
qed

lemma SizesOfXlaOp_Reshape:
  assumes "value_of input = Inr l" and "prod_list ds = prod_list (literal_dims l)"
    and "list_all (\<lambda>d. fits64 (int d)) ds"
  shows "SizesOfXlaOp (Reshape input (map int ds)) = Inr (map int ds)"
  using value_of_Reshape_dims [OF assms] by (simp add: SizesOfXlaOp_def ShapeOfXlaOp_def)

text \<open>
  Claim C8. For \<open>dim\<close> below the rank: when the size at \<open>dim\<close> is not 1,
  \<open>SqueezeTrivialDimension\<close> returns the input node itself and \<open>BuildUnsqueeze\<close> at
  \<open>dim\<close> then gives the input's sizes with a 1 inserted at \<open>dim\<close>; when the size is 1,
  \<open>SqueezeTrivialDimension\<close> reshapes to the sizes without entry \<open>dim\<close> and
  \<open>BuildUnsqueeze\<close> at \<open>dim\<close> restores the original sizes (and the original value).
\<close>

theorem Squeeze_then_Unsqueeze:
  assumes "SizesOfXlaOp input = Inr input_sizes" and "dim < length input_sizes"
  shows "(input_sizes ! dim \<noteq> 1 \<longrightarrow>
            SqueezeTrivialDimension input dim = Inr input \<and>
            (\<exists>u. BuildUnsqueeze input dim = Inr u \<and>
                 SizesOfXlaOp u = Inr (take dim input_sizes @ 1 # drop dim input_sizes))) \<and>
         (input_sizes ! dim = 1 \<longrightarrow>
            (\<exists>squeezed u.
               SqueezeTrivialDimension input dim = Inr squeezed \<and>
               squeezed = Reshape input (take dim input_sizes @ drop (Suc dim) input_sizes) \<and>
               SizesOfXlaOp squeezed = Inr (take dim input_sizes @ drop (Suc dim) input_sizes) \<and>
               BuildUnsqueeze squeezed dim = Inr u \<and>
               SizesOfXlaOp u = Inr input_sizes \<and> value_of u = value_of input))"
proof -
  from assms(1) obtain l where l: "value_of input = Inr l"
    and sizes: "input_sizes = map int (literal_dims l)"
    by (auto simp: SizesOfXlaOp_value)
  let ?ds = "literal_dims l"
  from assms(2) sizes have d: "dim < length ?ds" by simp
  have ins: "take dim input_sizes @ 1 # drop dim input_sizes =
      map int (take dim ?ds @ 1 # drop dim ?ds)"
    by (simp add: sizes take_map drop_map)
  have del: "take dim input_sizes @ drop (Suc dim) input_sizes =
      map int (take dim ?ds @ drop (Suc dim) ?ds)"
    by (simp add: sizes take_map drop_map)
  from value_of_dims_fit [OF l] have fit: "list_all (\<lambda>d. fits64 (int d)) ?ds"
    by (simp add: dims_fit_def)
  then have fi: "list_all (\<lambda>d. fits64 (int d)) (take dim ?ds @ 1 # drop dim ?ds)"
    by (auto simp: list_all_iff fits64_def dest: in_set_takeD in_set_dropD)
  from fit have fd: "list_all (\<lambda>d. fits64 (int d)) (take dim ?ds @ drop (Suc dim) ?ds)"
    by (auto simp: list_all_iff dest: in_set_takeD in_set_dropD)
  show ?thesis
  proof (intro conjI impI)
    assume ne: "input_sizes ! dim \<noteq> 1"
    with assms show "SqueezeTrivialDimension input dim = Inr input"
      by (simp add: SqueezeTrivialDimension_def)
    have "prod_list (take dim ?ds @ 1 # drop dim ?ds) = prod_list ?ds"
      by (simp add: prod_take_drop)
    from SizesOfXlaOp_Reshape [OF l this fi] assms
    show "\<exists>u. BuildUnsqueeze input dim = Inr u \<and>
         SizesOfXlaOp u = Inr (take dim input_sizes @ 1 # drop dim input_sizes)"
      by (simp add: BuildUnsqueeze_def BuildUnsqueezeDimensions_def ins)
  next
    assume one: "input_sizes ! dim = 1"
    with sizes d have one': "?ds ! dim = 1" by simp
    let ?sq = "Reshape input (take dim input_sizes @ drop (Suc dim) input_sizes)"
    let ?ds' = "take dim ?ds @ drop (Suc dim) ?ds"
    have p: "prod_list ?ds' = prod_list ?ds"
      using prod_take_nth_drop [OF d] one' by simp
    have sq: "SqueezeTrivialDimension input dim = Inr ?sq"
      using assms one by (simp add: SqueezeTrivialDimension_def)
    have v: "value_of ?sq = Inr (l\<lparr>literal_dims := ?ds'\<rparr>)"
      using value_of_Reshape_dims [OF l p fd] by (simp add: del)
    then have ssq: "SizesOfXlaOp ?sq = Inr (take dim input_sizes @ drop (Suc dim) input_sizes)"
      by (simp add: SizesOfXlaOp_def ShapeOfXlaOp_def del)
    let ?re = "take dim ?ds' @ 1 # drop dim ?ds'"
    have re_eq: "?re = ?ds"
      using d one' id_take_nth_drop [OF d] by (simp add: min_def)
    have bi: "take dim (map int ?ds') @ 1 # drop dim (map int ?ds') = map int ?re"
      by (rule insert_one_map_int)
    have fr: "list_all (\<lambda>d. fits64 (int d)) ?re"
      by (subst re_eq) (rule fit)
    have "prod_list ?re = prod_list (literal_dims (l\<lparr>literal_dims := ?ds'\<rparr>))"
      by (subst re_eq) (use p in simp)
    from value_of_Reshape_dims [OF v this fr]
    have vu: "value_of (Reshape ?sq (map int ?re)) = Inr l"
      unfolding re_eq by simp
    have le: "dim \<le> length (map int ?ds')" using d by simp
    have u: "BuildUnsqueeze ?sq dim = Inr (Reshape ?sq (map int ?re))"
      using ssq le unfolding del BuildUnsqueeze_def BuildUnsqueezeDimensions_def bi [symmetric]
      by simp
    have su: "SizesOfXlaOp (Reshape ?sq (map int ?re)) = Inr input_sizes"
      using vu by (simp add: SizesOfXlaOp_def ShapeOfXlaOp_def sizes)
    from sq ssq u su vu l
    show "\<exists>squeezed u.
               SqueezeTrivialDimension input dim = Inr squeezed \<and>
               squeezed = Reshape input (take dim input_sizes @ drop (Suc dim) input_sizes) \<and>
               SizesOfXlaOp squeezed = Inr (take dim input_sizes @ drop (Suc dim) input_sizes) \<and>
               BuildUnsqueeze squeezed dim = Inr u \<and>
               SizesOfXlaOp u = Inr input_sizes \<and> value_of u = value_of input"
      by simp
  qed
qed

lemma example_thin_sizes: "SizesOfXlaOp example_thin = Inr [2, 1, 3]"
  by (simp add: SizesOfXlaOp_def ShapeOfXlaOp_def example_thin_def valid_literal_def checked_def dims_fit_def fits64_def)

theorem Squeeze_then_Unsqueeze_witness:
  "SqueezeTrivialDimension example_matrix 0 = Inr example_matrix \<and>
   (\<exists>u. BuildUnsqueeze example_matrix 0 = Inr u \<and> SizesOfXlaOp u = Inr [1, 2, 3]) \<and>
   SqueezeTrivialDimension example_thin 1 = Inr (Reshape example_thin [2, 3]) \<and>
   SizesOfXlaOp (Reshape example_thin [2, 3]) = Inr [2, 3] \<and>
   (\<exists>u. BuildUnsqueeze (Reshape example_thin [2, 3]) 1 = Inr u \<and>
        SizesOfXlaOp u = Inr [2, 1, 3] \<and> value_of u = value_of example_thin)"
  using Squeeze_then_Unsqueeze [OF example_matrix_sizes, of 0]
    Squeeze_then_Unsqueeze [OF example_thin_sizes, of 1]
  by simp

section \<open>Facts about the row layout of literals\<close>

lemma length_chop [simp]: "length (chop c sz xs) = c"
  by (induction c arbitrary: xs) simp_all

lemma chop_lengths: "c * sz \<le> length xs \<Longrightarrow> p \<in> set (chop c sz xs) \<Longrightarrow> length p = sz"
proof (induction c arbitrary: xs)
  case 0
  then show ?case by simp
next
  case (Suc c)
  from Suc.prems(1) have le: "sz \<le> length xs" "c * sz \<le> length (drop sz xs)" by simp_all
  from Suc.prems(2) have "p = take sz xs \<or> p \<in> set (chop c sz (drop sz xs))" by simp
  then show ?case using le Suc.IH [OF le(2)] by auto
qed

lemma concat_chop: "length xs = c * sz \<Longrightarrow> concat (chop c sz xs) = xs"
proof (induction c arbitrary: xs)
  case 0
  then show ?case by simp
next
  case (Suc c)
  then have "length (drop sz xs) = c * sz" by simp
  from Suc.IH [OF this] show ?case by simp
qed

lemma length_concat_uniform: "\<forall>p\<in>set ps. length p = sz \<Longrightarrow> length (concat ps) = length ps * sz"
  by (induction ps) simp_all

lemma chop_concat: "\<forall>p\<in>set ps. length p = sz \<Longrightarrow> chop (length ps) sz (concat ps) = ps"
  by (induction ps) simp_all

lemma rows_of_shaped:
  assumes "length xs = outer * (n * inner)"
  shows "block_shaped outer n inner (rows_of outer n inner xs)"
proof -
  have a: "\<And>B. B \<in> set (chop outer (n * inner) xs) \<Longrightarrow> length B = n * inner"
    using assms by (intro chop_lengths [of outer "n * inner" xs]) simp_all
  have "\<And>B r. B \<in> set (chop outer (n * inner) xs) \<Longrightarrow> r \<in> set (chop n inner B) \<Longrightarrow> length r = inner"
    using a by (intro chop_lengths [of n inner]) simp_all
  then show ?thesis by (auto simp: block_shaped_def rows_of_def)
qed

lemma flatten_rows_of:
  assumes "length xs = outer * (n * inner)"
  shows "flatten_rows (rows_of outer n inner xs) = xs"
proof -
  have a: "\<And>B. B \<in> set (chop outer (n * inner) xs) \<Longrightarrow> length B = n * inner"
    using assms by (intro chop_lengths [of outer "n * inner" xs]) simp_all
  have "map concat (map (chop n inner) (chop outer (n * inner) xs)) = chop outer (n * inner) xs"
    using a by (simp add: map_idI concat_chop)
  then show ?thesis using assms by (simp add: flatten_rows_def rows_of_def concat_chop)
qed

lemma length_flatten_rows:
  assumes "block_shaped outer n inner R"
  shows "length (flatten_rows R) = outer * (n * inner)"
proof -
  have "\<forall>p\<in>set (map concat R). length p = n * inner"
    using assms by (auto simp: block_shaped_def length_concat_uniform)
  from length_concat_uniform [OF this] assms show ?thesis
    by (simp add: flatten_rows_def block_shaped_def)
qed

lemma rows_of_flatten:
  assumes "block_shaped outer n inner R"
  shows "rows_of outer n inner (flatten_rows R) = R"
proof -
  have u: "\<forall>p\<in>set (map concat R). length p = n * inner"
    using assms by (auto simp: block_shaped_def length_concat_uniform)
  have "chop outer (n * inner) (concat (map concat R)) = map concat R"
    using chop_concat [OF u] assms by (simp add: block_shaped_def)
  moreover have "map (chop n inner) (map concat R) = R"
  proof -
    have "\<And>B. B \<in> set R \<Longrightarrow> chop n inner (concat B) = B"
      using assms chop_concat [of _ inner] by (fastforce simp: block_shaped_def)
    then show ?thesis by (simp add: map_idI)
  qed
  ultimately show ?thesis by (simp add: rows_of_def flatten_rows_def)
qed

lemma block_shaped_map:
  assumes "block_shaped outer n inner R"
    and "\<And>B. B \<in> set R \<Longrightarrow> length (f B) = m \<and> (\<forall>r\<in>set (f B). length r = inner)"
  shows "block_shaped outer m inner (map f R)"
  using assms by (auto simp: block_shaped_def)

lemma prod_dims_split:
  "d < length ds \<Longrightarrow> prod_list ds = outer_count d ds * (ds ! d * inner_count d ds)"
  by (simp add: outer_count_def inner_count_def prod_take_nth_drop)

lemma counts_update [simp]:
  "outer_count d (ds[d := m]) = outer_count d ds"
  "inner_count d (ds[d := m]) = inner_count d ds"
  by (simp_all add: outer_count_def inner_count_def)

lemma prod_dims_update:
  "d < length ds \<Longrightarrow> prod_list (ds[d := m]) = outer_count d ds * (m * inner_count d ds)"
  using prod_dims_split [of d "ds[d := m]"] by simp

lemma valid_rows_shaped:
  assumes "length xs = prod_list ds" and "d < length ds"
  shows "block_shaped (outer_count d ds) (ds ! d) (inner_count d ds)
           (rows_of (outer_count d ds) (ds ! d) (inner_count d ds) xs)"
  using assms by (intro rows_of_shaped) (simp add: prod_dims_split)

lemma length_every_nth: "0 < k \<Longrightarrow> length (every_nth k xs) = (length xs + k - 1) div k"
proof (induction k xs rule: every_nth.induct)
  case (1 k)
  then show ?case by simp
next
  case (2 k x xs)
  show ?case
  proof (cases "k - 1 \<le> length xs")
    case True
    with 2 have "length (every_nth k (x # xs)) = Suc ((length xs - (k - 1) + k - 1) div k)" by simp
    also from True 2(2) have "length xs - (k - 1) + k - 1 = length xs" by simp
    also have "Suc (length xs div k) = (length (x # xs) + k - 1) div k"
    proof -
      from 2(2) have "(length xs + k) div k = length xs div k + 1" by (intro div_add_self2) simp
      then show ?thesis by simp
    qed
    finally show ?thesis .
  next
    case False
    with 2 have "length (every_nth k (x # xs)) = Suc ((0 + k - 1) div k)" by simp
    also from 2(2) have "(0 + k - 1) div k = 0" by simp
    also have "Suc 0 = (length (x # xs) + k - 1) div k"
    proof -
      from 2(2) have "(length xs + k) div k = length xs div k + 1" by (intro div_add_self2) simp
      moreover from False have "length xs div k = 0" by simp
      ultimately show ?thesis by simp
    qed
    finally show ?thesis .
  qed
qed

lemma set_every_nth: "set (every_nth k xs) \<subseteq> set xs"
proof (induction k xs rule: every_nth.induct)
  case (1 k)
  then show ?case by simp
next
  case (2 k x xs)
  have "set (drop (k - 1) xs) \<subseteq> set xs" by (rule set_drop_subset)
  with 2 show ?case by auto
qed

lemma every_nth_one [simp]: "every_nth (Suc 0) xs = xs"
  by (induction xs) simp_all

section \<open>Every node value is a valid literal\<close>

lemma valid_reshape:
  "lit_reshape l new_sizes = Inr l' \<Longrightarrow> valid_literal l \<Longrightarrow> valid_literal l'"
  by (auto simp: lit_reshape_def valid_literal_def split: if_splits)

lemma length_concat_replicate: "length (concat (replicate k xs)) = k * length xs"
  by (induction k) simp_all

lemma valid_broadcast:
  "lit_broadcast l sizes = Inr l' \<Longrightarrow> valid_literal l \<Longrightarrow> valid_literal l'"
  by (auto simp: lit_broadcast_def valid_literal_def length_concat_replicate split: if_splits)

lemma valid_slice:
  assumes "lit_slice_in_dim l start_index limit_index stride dimno = Inr l'"
    and "valid_literal l"
  shows "valid_literal l'"
proof -
  let ?ds = "literal_dims l" and ?d = "nat dimno"
  let ?a = "nat (limit_index - start_index)" and ?b = "nat start_index" and ?k = "nat stride"
  let ?f = "\<lambda>rows. every_nth ?k (take ?a (drop ?b rows))"
  let ?R = "rows_of (outer_count ?d ?ds) (?ds ! ?d) (inner_count ?d ?ds) (literal_data l)"
  let ?m = "(?a + ?k - 1) div ?k"
  from assms(1) have c: "0 \<le> dimno" "?d < length ?ds" "0 \<le> start_index"
    "start_index \<le> limit_index" "limit_index \<le> int (?ds ! ?d)" "0 < stride"
    and l': "l' = l\<lparr>literal_dims := ?ds[?d := ?m], literal_data := flatten_rows (map ?f ?R)\<rparr>"
    by (auto simp: lit_slice_in_dim_def Let_def split: if_splits)
  from assms(2) c(2) have sh: "block_shaped (outer_count ?d ?ds) (?ds ! ?d) (inner_count ?d ?ds) ?R"
    by (intro valid_rows_shaped) (simp add: valid_literal_def)
  have "block_shaped (outer_count ?d ?ds) ?m (inner_count ?d ?ds) (map ?f ?R)"
  proof (rule block_shaped_map [OF sh])
    fix B assume B: "B \<in> set ?R"
    with sh have lB: "length B = ?ds ! ?d" and rB: "\<forall>r\<in>set B. length r = inner_count ?d ?ds"
      by (auto simp: block_shaped_def)
    from c lB have "length (take ?a (drop ?b B)) = ?a" by simp
    with c(6) have "length (?f B) = ?m" by (simp add: length_every_nth)
    moreover have "set (?f B) \<subseteq> set B"
      using set_every_nth [of ?k "take ?a (drop ?b B)"] set_take_subset [of ?a "drop ?b B"]
        set_drop_subset [of ?b B] by blast
    ultimately show "length (?f B) = ?m \<and> (\<forall>r\<in>set (?f B). length r = inner_count ?d ?ds)"
      using rB by blast
  qed
  from length_flatten_rows [OF this] c(2) show ?thesis
    by (simp add: l' valid_literal_def prod_dims_update)
qed

lemma compatible_counts:
  assumes "concat_compatible d l0 l"
  shows "outer_count d (literal_dims l) = outer_count d (literal_dims l0)"
    and "inner_count d (literal_dims l) = inner_count d (literal_dims l0)"
    and "length (literal_dims l) = length (literal_dims l0)"
proof -
  from assms have e: "(literal_dims l)[d := 0] = (literal_dims l0)[d := 0]"
    by (simp add: concat_compatible_def)
  from counts_update(1) [of d "literal_dims l" 0] counts_update(1) [of d "literal_dims l0" 0] e
  show "outer_count d (literal_dims l) = outer_count d (literal_dims l0)" by simp
  from counts_update(2) [of d "literal_dims l" 0] counts_update(2) [of d "literal_dims l0" 0] e
  show "inner_count d (literal_dims l) = inner_count d (literal_dims l0)" by simp
  from e show "length (literal_dims l) = length (literal_dims l0)"
    by (metis length_list_update)
qed

lemma length_concat_sum: "length (concat xss) = sum_list (map length xss)"
  by (induction xss) simp_all

lemma valid_concat:
  assumes "lit_concat ls dimno = Inr l'" and "\<forall>l\<in>set ls. valid_literal l"
  shows "valid_literal l'"
proof -
  from assms(1) obtain l0 rest where ls: "ls = l0 # rest"
    by (cases ls) (auto simp: lit_concat_def)
  let ?ds = "literal_dims l0" and ?d = "nat dimno"
  let ?o = "outer_count ?d ?ds" and ?i = "inner_count ?d ?ds"
  let ?rows = "\<lambda>l. rows_of ?o (literal_dims l ! ?d) ?i (literal_data l)"
  let ?n = "sum_list (map (\<lambda>l. literal_dims l ! ?d) ls)"
  let ?R = "map (\<lambda>k. concat (map (\<lambda>l. ?rows l ! k) ls)) [0..<?o]"
  from assms(1) ls have c: "?d < length ?ds" "list_all (concat_compatible ?d l0) ls"
    and l': "l' = \<lparr>literal_type = literal_type l0, literal_dims = ?ds[?d := ?n],
                    literal_data = flatten_rows ?R\<rparr>"
    by (auto simp: lit_concat_def Let_def split: if_splits)
  have sh: "\<And>l. l \<in> set ls \<Longrightarrow> block_shaped ?o (literal_dims l ! ?d) ?i (?rows l)"
  proof -
    fix l assume l: "l \<in> set ls"
    with c(2) have cc: "concat_compatible ?d l0 l" by (simp add: list_all_iff)
    from l assms(2) have v: "length (literal_data l) = prod_list (literal_dims l)"
      by (simp add: valid_literal_def)
    from valid_rows_shaped [OF v, of ?d] c(1) compatible_counts [OF cc]
    show "block_shaped ?o (literal_dims l ! ?d) ?i (?rows l)" by simp
  qed
  have "block_shaped ?o ?n ?i ?R"
    unfolding block_shaped_def
  proof (intro conjI ballI)
    show "length ?R = ?o" by simp
  next
    fix B assume "B \<in> set ?R"
    then obtain k where k: "k < ?o" and B: "B = concat (map (\<lambda>l. ?rows l ! k) ls)" by auto
    have "\<And>l. l \<in> set ls \<Longrightarrow> length (?rows l ! k) = literal_dims l ! ?d"
      using sh k by (auto simp: block_shaped_def)
    then have ml: "map length (map (\<lambda>l. ?rows l ! k) ls) = map (\<lambda>l. literal_dims l ! ?d) ls"
      by simp
    show "length B = ?n" by (simp only: B length_concat_sum ml)
    fix r assume "r \<in> set B"
    with B obtain l where l: "l \<in> set ls" and r: "r \<in> set (?rows l ! k)" by auto
    from sh [OF l] k have "?rows l ! k \<in> set (?rows l)" by (simp add: block_shaped_def)
    with sh [OF l] r show "length r = ?i" by (auto simp: block_shaped_def)
  qed
  from length_flatten_rows [OF this] c(1) show ?thesis
    by (simp add: l' valid_literal_def prod_dims_update)
qed

lemma pad_rows_shaped:
  assumes "\<forall>r\<in>set B. length r = inner" and "length fill = inner"
    and "0 \<le> interior_padding c"
  shows "length (pad_rows c fill B) = nat (padded_size (length B) c)"
    and "\<forall>r\<in>set (pad_rows c fill B). length r = inner"
proof -
  show "length (pad_rows c fill B) = nat (padded_size (length B) c)"
    by (simp add: pad_rows_def)
  show "\<forall>r\<in>set (pad_rows c fill B). length r = inner"
  proof
    fix r assume "r \<in> set (pad_rows c fill B)"
    then obtain j where r: "r = (let p = int j - edge_padding_low c in
               if 0 \<le> p \<and> p mod (interior_padding c + 1) = 0 \<and>
                  p div (interior_padding c + 1) < int (length B)
               then B ! nat (p div (interior_padding c + 1)) else fill)"
      by (auto simp: pad_rows_def)
    let ?p = "int j - edge_padding_low c"
    let ?q = "?p div (interior_padding c + 1)"
    show "length r = inner"
    proof (cases "0 \<le> ?p \<and> ?p mod (interior_padding c + 1) = 0 \<and> ?q < int (length B)")
      case True
      with assms(3) have "0 \<le> ?q" by (simp add: pos_imp_zdiv_nonneg_iff)
      with True have "nat ?q < length B" by linarith
      then have "B ! nat ?q \<in> set B" by simp
      with assms(1) True r show ?thesis by (simp add: Let_def)
    next
      case False
      with assms(2) r show ?thesis by (auto simp: Let_def)
    qed
  qed
qed

lemma pad_dim_valid:
  assumes "length xs = prod_list ds" and "d < length ds" and "pad_dim d c v (ds, xs) = (ds', xs')"
    and "0 \<le> interior_padding c"
  shows "length xs' = prod_list ds' \<and> length ds' = length ds"
proof -
  let ?o = "outer_count d ds" and ?i = "inner_count d ds"
  let ?R = "rows_of ?o (ds ! d) ?i xs"
  let ?m = "nat (padded_size (ds ! d) c)"
  from assms(3) have ds': "ds' = ds[d := ?m]"
    and xs': "xs' = flatten_rows (map (pad_rows c (replicate ?i v)) ?R)"
    by (simp_all add: pad_dim_def)
  have sh: "block_shaped ?o (ds ! d) ?i ?R" using assms(1,2) by (rule valid_rows_shaped)
  have "block_shaped ?o ?m ?i (map (pad_rows c (replicate ?i v)) ?R)"
  proof (rule block_shaped_map [OF sh])
    fix B assume "B \<in> set ?R"
    with sh have lB: "length B = ds ! d" and rB: "\<forall>r\<in>set B. length r = ?i"
      by (auto simp: block_shaped_def)
    from pad_rows_shaped [OF rB _ assms(4), of "replicate ?i v"] lB
    show "length (pad_rows c (replicate ?i v) B) = ?m \<and>
          (\<forall>r\<in>set (pad_rows c (replicate ?i v) B). length r = ?i)" by simp
  qed
  from length_flatten_rows [OF this] assms(2) show ?thesis
    by (simp add: ds' xs' prod_dims_update)
qed

lemma pad_dims_valid:
  "length xs = prod_list ds \<Longrightarrow> d + length config \<le> length ds \<Longrightarrow>
   pad_dims d config v (ds, xs) = (ds', xs') \<Longrightarrow>
   \<forall>c\<in>set config. 0 \<le> interior_padding c \<Longrightarrow> length xs' = prod_list ds'"
proof (induction config arbitrary: d ds xs)
  case Nil
  then show ?case by simp
next
  case (Cons c cs)
  obtain ds1 xs1 where p: "pad_dim d c v (ds, xs) = (ds1, xs1)" by (cases "pad_dim d c v (ds, xs)")
  from Cons.prems(2) have d: "d < length ds" by simp
  from Cons.prems(4) have ip: "0 \<le> interior_padding c" by simp
  from pad_dim_valid [OF Cons.prems(1) d p ip]
  have v1: "length xs1 = prod_list ds1" and l1: "length ds1 = length ds" by simp_all
  from Cons.prems(3) p have "pad_dims (Suc d) cs v (ds1, xs1) = (ds', xs')" by simp
  from Cons.IH [OF v1 _ this] Cons.prems(2,4) l1 show ?case by simp
qed

lemma valid_pad:
  assumes "lit_pad l padding_value config = Inr l'" and "valid_literal l"
  shows "valid_literal l'"
proof -
  from assms(1) obtain v where v: "literal_data padding_value = [v]"
    by (auto simp: lit_pad_def split: list.splits)
  obtain ds' xs' where p: "pad_dims 0 config v (literal_dims l, literal_data l) = (ds', xs')"
    by (cases "pad_dims 0 config v (literal_dims l, literal_data l)")
  from assms(1) v p have c: "valid_padding (literal_dims l) config"
    and l': "l' = \<lparr>literal_type = literal_type l, literal_dims = ds', literal_data = xs'\<rparr>"
    by (auto simp: lit_pad_def split: if_splits)
  from c have le: "0 + length config \<le> length (literal_dims l)" by (simp add: valid_padding_def)
  have "\<forall>c\<in>set config. 0 \<le> interior_padding c"
  proof
    fix c' assume "c' \<in> set config"
    then obtain i where i: "i < length config" "c' = config ! i" by (auto simp: in_set_conv_nth)
    with c have "(literal_dims l ! i, c') \<in> set (zip (literal_dims l) config)"
      by (auto simp: valid_padding_def in_set_zip)
    with c show "0 \<le> interior_padding c'" by (auto simp: valid_padding_def list_all_iff)
  qed
  from pad_dims_valid [OF _ le p this] assms(2) show ?thesis by (simp add: l' valid_literal_def)
qed

lemma valid_select:
  assumes "lit_select pred on_true on_false = Inr l'"
    and "valid_literal pred" and "valid_literal on_true" and "valid_literal on_false"
  shows "valid_literal l'"
  using assms
  by (auto simp: lit_select_def valid_literal_def length_concat_replicate split: if_splits)

lemma collect_Inr: "collect rs = Inr vs \<Longrightarrow> rs = map Inr vs"
proof (induction rs arbitrary: vs)
  case Nil
  then show ?case by simp
next
  case (Cons r rs)
  then show ?case by (cases r) (auto split: sum.splits)
qed

lemma collect_map_Inr [simp]: "collect (map Inr vs) = Inr vs"
  by (induction vs) simp_all

lemma value_of_valid: "value_of op = Inr l \<Longrightarrow> valid_literal l"
proof (induction op arbitrary: l rule: value_of.induct)
  case (1 c)
  then show ?case by (auto simp: checked_Inr_iff split: if_splits)
next
  case (2 operand new_sizes)
  then show ?case by (auto simp: checked_Inr_iff split: sum.splits dest: valid_reshape)
next
  case (3 operand broadcast_sizes)
  then show ?case by (auto simp: checked_Inr_iff split: sum.splits dest: valid_broadcast)
next
  case (4 operand padding_value config)
  then show ?case by (auto simp: checked_Inr_iff split: sum.splits dest: valid_pad)
next
  case (5 operand start_index limit_index stride dimno)
  then show ?case by (auto simp: checked_Inr_iff split: sum.splits dest: valid_slice)
next
  case (6 operands dimno)
  from "6.prems" obtain ls where ls: "collect (map value_of operands) = Inr ls"
    and c: "lit_concat ls dimno = Inr l"
    by (auto simp: checked_Inr_iff split: sum.splits)
  from collect_Inr [OF ls] have m: "map value_of operands = map Inr ls" .
  have "\<forall>x\<in>set ls. valid_literal x"
  proof
    fix x assume "x \<in> set ls"
    then obtain i where i: "i < length ls" "x = ls ! i" by (auto simp: in_set_conv_nth)
    from m have len: "length operands = length ls" by (metis length_map)
    from m i len have "value_of (operands ! i) = Inr x" by (metis nth_map)
    moreover from i len have "operands ! i \<in> set operands" by simp
    ultimately show "valid_literal x" using "6.IH" by blast
  qed
  with c show ?case by (rule valid_concat)
next
  case (7 pred on_true on_false)
  then show ?case by (auto simp: checked_Inr_iff split: sum.splits dest: valid_select)
qed

section \<open>Facts about Resize\<close>

lemma chop_singletons: "chop (length xs) (Suc 0) xs = map (\<lambda>x. [x]) xs"
  by (induction xs) simp_all

lemma concat_singletons: "concat (map (\<lambda>x. [x]) xs) = xs"
  by (induction xs) simp_all

lemma rows_of_vector:
  "rows_of (Suc 0) (length xs) (Suc 0) xs = [map (\<lambda>x. [x]) xs]"
  by (simp add: rows_of_def chop_singletons)

lemma vector_counts [simp]: "outer_count 0 [n] = Suc 0" "inner_count 0 [n] = Suc 0"
  by (simp_all add: outer_count_def inner_count_def)

lemma prod_list_nonneg: "nonneg_sizes sizes \<Longrightarrow> 0 \<le> prod_list sizes"
  by (induction sizes) (simp_all add: nonneg_sizes_def)

lemma nat_prod_list: "nonneg_sizes sizes \<Longrightarrow> nat (prod_list sizes) = prod_list (map nat sizes)"
proof (induction sizes)
  case Nil
  then show ?case by simp
next
  case (Cons s sizes)
  then have "0 \<le> s" "nonneg_sizes sizes" by (simp_all add: nonneg_sizes_def)
  with Cons.IH show ?case by (simp add: nat_mult_distrib)
qed

lemma int_prod_list: "prod_list (map int ds) = int (prod_list ds)"
  by (induction ds) simp_all

lemma slice_vector:
  assumes "length xs = n" and "0 \<le> N" and "N \<le> int n"
  shows "lit_slice_in_dim \<lparr>literal_type = t, literal_dims = [n], literal_data = xs\<rparr> 0 N 1 0 =
           Inr \<lparr>literal_type = t, literal_dims = [nat N], literal_data = take (nat N) xs\<rparr>"
proof -
  have "rows_of (Suc 0) n (Suc 0) xs = [map (\<lambda>x. [x]) xs]"
    using rows_of_vector [of xs] assms(1) by simp
  then show ?thesis
    using assms by (simp add: lit_slice_in_dim_def flatten_rows_def take_map concat_singletons)
qed

lemma map_if_upt:
  "n \<le> m \<Longrightarrow> map (\<lambda>j. if j < n then g j else c) [0..<m] = map g [0..<n] @ replicate (m - n) c"
proof (induction m)
  case 0
  then show ?case by simp
next
  case (Suc m)
  show ?case
  proof (cases "n = Suc m")
    case True
    then show ?thesis by simp
  next
    case False
    with Suc.prems have le: "n \<le> m" by simp
    then have "Suc m - n = Suc (m - n)" by simp
    with Suc.IH [OF le] le show ?thesis by (simp add: replicate_append_same)
  qed
qed

lemma pad_vector:
  assumes "length xs = n" and "0 \<le> h"
  shows "lit_pad \<lparr>literal_type = t, literal_dims = [n], literal_data = xs\<rparr>
           \<lparr>literal_type = t, literal_dims = [], literal_data = [v]\<rparr>
           [\<lparr>edge_padding_low = 0, edge_padding_high = h, interior_padding = 0\<rparr>] =
         Inr \<lparr>literal_type = t, literal_dims = [n + nat h],
               literal_data = xs @ replicate (nat h) v\<rparr>"
proof -
  let ?c = "\<lparr>edge_padding_low = 0, edge_padding_high = h, interior_padding = 0\<rparr>"
  let ?rows = "map (\<lambda>x. [x]) xs"
  have ps: "padded_size n ?c = int n + h" by (simp add: padded_size_def)
  have m: "nat (int n + h) = n + nat h" using assms(2) by simp
  have "pad_rows ?c [v] ?rows = map (\<lambda>j. if j < n then ?rows ! j else [v]) [0..<n + nat h]"
    using assms(1) by (simp add: pad_rows_def ps m)
  also have "\<dots> = map (\<lambda>j. ?rows ! j) [0..<n] @ replicate (nat h) [v]"
    by (subst map_if_upt) simp_all
  also have "map (\<lambda>j. ?rows ! j) [0..<n] = ?rows"
    using assms(1) map_nth [of ?rows] by simp
  finally have pr: "pad_rows ?c [v] ?rows = ?rows @ replicate (nat h) [v]" .
  have r: "rows_of (Suc 0) n (Suc 0) xs = [?rows]"
    using rows_of_vector [of xs] assms(1) by simp
  have "pad_dim 0 ?c v ([n], xs) = ([n + nat h], xs @ replicate (nat h) v)"
    by (simp add: pad_dim_def r pr ps m flatten_rows_def concat_singletons concat_replicate_single)
  then show ?thesis
    using assms(2) by (simp add: lit_pad_def valid_padding_def ps)
qed

lemma dims_fit_count: "dims_fit ds \<Longrightarrow> fits64 (int (prod_list ds))"
  by (simp add: dims_fit_def)

lemma dims_fit_vector: "dims_fit [n] \<longleftrightarrow> fits64 (int n)"
  by (simp add: dims_fit_def)

lemma dims_fit_sizes:
  assumes "nonneg_sizes sizes" and "int64_sizes sizes" and "fits64 (prod_list sizes)"
  shows "dims_fit (map nat sizes)"
proof -
  have "list_all (\<lambda>d. fits64 (int d)) (map nat sizes)"
    using assms(1,2) by (induction sizes) (simp_all add: nonneg_sizes_def int64_sizes_def)
  moreover have "int (prod_list (map nat sizes)) = prod_list sizes"
    using nat_prod_list [OF assms(1)] prod_list_nonneg [OF assms(1)] by simp
  ultimately show ?thesis using assms(3) by (simp add: dims_fit_def)
qed

lemma dims_fit_map_int:
  assumes "dims_fit ds"
  shows "int64_sizes (map int ds)" and "fits64 (prod_list (map int ds))"
proof -
  show "int64_sizes (map int ds)"
    using assms by (simp add: dims_fit_def int64_sizes_def list_all_iff)
  show "fits64 (prod_list (map int ds))"
    using assms by (simp add: dims_fit_def int_prod_list)
qed

lemma BuildResize_node:
  assumes "value_of input = Inr l" and "fits64 (prod_list size')"
  shows "BuildResize input size' =
           Inr (Reshape (resized_node input (literal_type l)
                           (int (length (literal_data l))) (prod_list size')) size')"
proof -
  let ?n = "int (length (literal_data l))" and ?N = "prod_list size'"
  from value_of_valid [OF assms(1)] have v: "length (literal_data l) = prod_list (literal_dims l)"
    by (simp add: valid_literal_def)
  from value_of_dims_fit [OF assms(1)] v have fn: "fits64 ?n" by (simp add: dims_fit_def)
  then have e: "Multiply (map int (literal_dims l)) = ?n"
    by (simp add: Multiply_prod_list int_prod_list v)
  have m: "Multiply size' = ?N" using assms(2) by (rule Multiply_prod_list)
  have "?n < ?N \<Longrightarrow> wrap64 (?N - ?n) = ?N - ?n"
    using assms(2) by (intro wrap64_fits) (simp add: fits64_def)
  with assms(1) show ?thesis
    by (simp add: BuildResize_def ShapeOfXlaOp_def ElementsIn_def e m resized_node_def Let_def)
qed

lemma flatten_value:
  assumes "value_of input = Inr l"
  shows "value_of (Reshape input [int (length (literal_data l))]) =
           Inr (l\<lparr>literal_dims := [length (literal_data l)]\<rparr>)"
proof -
  from value_of_valid [OF assms] have v: "length (literal_data l) = prod_list (literal_dims l)"
    by (simp add: valid_literal_def)
  with value_of_dims_fit [OF assms] have "dims_fit [length (literal_data l)]"
    by (simp add: dims_fit_def)
  with assms v show ?thesis by (simp add: lit_reshape_def nonneg_sizes_def checked_Inr)
qed

lemma resized_node_value:
  assumes "value_of input = Inr l" and "0 \<le> N" and "fits64 N"
  shows "value_of (resized_node input (literal_type l) (int (length (literal_data l))) N) =
           Inr \<lparr>literal_type = literal_type l,
                 literal_dims = (if N = int (length (literal_data l)) then literal_dims l else [nat N]),
                 literal_data = resized_data (nat N) (literal_data l)\<rparr>"
proof -
  let ?xs = "literal_data l" and ?n = "length (literal_data l)"
  have l1: "l\<lparr>literal_dims := [?n]\<rparr> =
      \<lparr>literal_type = literal_type l, literal_dims = [?n], literal_data = ?xs\<rparr>" by simp
  from assms(2,3) have fN: "dims_fit [nat N]" by (simp add: dims_fit_def)
  consider (less) "N < int ?n" | (more) "int ?n < N" | (same) "N = int ?n" by linarith
  then show ?thesis
  proof cases
    case less
    with assms(2) have "lit_slice_in_dim (l\<lparr>literal_dims := [?n]\<rparr>) 0 N 1 0 =
        Inr \<lparr>literal_type = literal_type l, literal_dims = [nat N], literal_data = take (nat N) ?xs\<rparr>"
      unfolding l1 by (intro slice_vector) simp_all
    with less assms(2) fN show ?thesis
      by (simp add: resized_node_def flatten_value [OF assms(1)] resized_data_def checked_Inr
          del: value_of.simps(2))
  next
    case more
    then have "lit_pad (l\<lparr>literal_dims := [?n]\<rparr>)
        \<lparr>literal_type = literal_type l, literal_dims = [], literal_data = [0]\<rparr>
        [\<lparr>edge_padding_low = 0, edge_padding_high = N - int ?n, interior_padding = 0\<rparr>] =
      Inr \<lparr>literal_type = literal_type l, literal_dims = [?n + nat (N - int ?n)],
            literal_data = ?xs @ replicate (nat (N - int ?n)) 0\<rparr>"
      unfolding l1 by (intro pad_vector) simp_all
    moreover from more have "?n + nat (N - int ?n) = nat N" "nat (N - int ?n) = nat N - ?n"
      by simp_all
    ultimately show ?thesis using more fN
      by (simp add: resized_node_def flatten_value [OF assms(1)] resized_data_def ScalarValue_def
          valid_literal_def checked_Inr del: value_of.simps(2))
  next
    case same
    with assms(1) show ?thesis by (simp add: resized_node_def resized_data_def)
  qed
qed

lemma BuildResize_value:
  assumes "value_of input = Inr l" and "nonneg_sizes size'" and "int64_sizes size'"
    and "fits64 (prod_list size')"
  shows "value_of_result (BuildResize input size') =
           Inr \<lparr>literal_type = literal_type l, literal_dims = map nat size',
                 literal_data = resized_data (prod_list (map nat size')) (literal_data l)\<rparr>"
proof -
  let ?N = "prod_list size'"
  from assms(2) have N: "0 \<le> ?N" by (rule prod_list_nonneg)
  from value_of_valid [OF assms(1)] have v: "length (literal_data l) = prod_list (literal_dims l)"
    by (simp add: valid_literal_def)
  have "prod_list (map nat size') =
      prod_list (if ?N = int (length (literal_data l)) then literal_dims l else [nat ?N])"
    using nat_prod_list [OF assms(2)] v by auto
  with assms(2) nat_prod_list [OF assms(2)] dims_fit_sizes [OF assms(2,3,4)] show ?thesis
    by (simp add: value_of_result_def BuildResize_node [OF assms(1,4)]
        resized_node_value [OF assms(1) N assms(4)] lit_reshape_def checked_Inr)
qed

text \<open>
  Claim C9, as amended. For a node with a value and new sizes that are non-negative
  64-bit values with a 64-bit product, \<open>BuildResize\<close> returns the reshape to the new
  sizes of: the slice \<open>[0, new_count)\<close> of the flattened input when the new count is
  smaller, the flattened input padded at the high edge only with zeros when it is
  larger, the input itself when the counts are equal. Its value has the new sizes and
  the first \<open>new_count\<close> elements of the input in row-major order, followed by zeros
  when the input is shorter. Hence resizing to the input's own sizes gives the input's
  value, and resizing to a larger count and then to sizes of the original count gives
  back the original elements.
\<close>

theorem BuildResize_truncates_or_pads:
  assumes "value_of input = Inr l" and "nonneg_sizes new_sizes" and "int64_sizes new_sizes"
    and "fits64 (prod_list new_sizes)"
  shows "BuildResize input new_sizes =
           Inr (Reshape (resized_node input (literal_type l)
                           (int (length (literal_data l))) (prod_list new_sizes)) new_sizes) \<and>
         value_of (Reshape input [int (length (literal_data l))]) =
           Inr (l\<lparr>literal_dims := [length (literal_data l)]\<rparr>) \<and>
         value_of_result (BuildResize input new_sizes) =
           Inr \<lparr>literal_type = literal_type l, literal_dims = map nat new_sizes,
                 literal_data =
                   take (prod_list (map nat new_sizes)) (literal_data l) @
                   replicate (prod_list (map nat new_sizes) - length (literal_data l)) 0\<rparr> \<and>
         value_of_result (BuildResize input (map int (literal_dims l))) = Inr l \<and>
         (nonneg_sizes back_sizes \<and> int64_sizes back_sizes \<and>
          prod_list back_sizes = int (length (literal_data l)) \<and>
          int (length (literal_data l)) \<le> prod_list new_sizes \<longrightarrow>
            (\<exists>grown. BuildResize input new_sizes = Inr grown \<and>
               value_of_result (BuildResize grown back_sizes) =
                 Inr \<lparr>literal_type = literal_type l, literal_dims = map nat back_sizes,
                       literal_data = literal_data l\<rparr>))"
proof (intro conjI impI)
  show "BuildResize input new_sizes =
           Inr (Reshape (resized_node input (literal_type l)
                           (int (length (literal_data l))) (prod_list new_sizes)) new_sizes)"
    by (rule BuildResize_node [OF assms(1,4)])
  show "value_of (Reshape input [int (length (literal_data l))]) =
           Inr (l\<lparr>literal_dims := [length (literal_data l)]\<rparr>)"
    by (rule flatten_value [OF assms(1)])
  show "value_of_result (BuildResize input new_sizes) =
           Inr \<lparr>literal_type = literal_type l, literal_dims = map nat new_sizes,
                 literal_data =
                   take (prod_list (map nat new_sizes)) (literal_data l) @
                   replicate (prod_list (map nat new_sizes) - length (literal_data l)) 0\<rparr>"
    using BuildResize_value [OF assms] by (simp add: resized_data_def)
  from value_of_valid [OF assms(1)] have v: "length (literal_data l) = prod_list (literal_dims l)"
    by (simp add: valid_literal_def)
  note own = dims_fit_map_int [OF value_of_dims_fit [OF assms(1)]]
  show "value_of_result (BuildResize input (map int (literal_dims l))) = Inr l"
    using BuildResize_value [OF assms(1) nonneg_map_int own, of ] v
    by (simp add: resized_data_def map_nat_comp_int)
next
  assume a: "nonneg_sizes back_sizes \<and> int64_sizes back_sizes \<and>
          prod_list back_sizes = int (length (literal_data l)) \<and>
          int (length (literal_data l)) \<le> prod_list new_sizes"
  let ?grown = "Reshape (resized_node input (literal_type l)
      (int (length (literal_data l))) (prod_list new_sizes)) new_sizes"
  let ?M = "prod_list (map nat new_sizes)"
  have g: "BuildResize input new_sizes = Inr ?grown" by (rule BuildResize_node [OF assms(1,4)])
  from BuildResize_value [OF assms] g
  have gv: "value_of ?grown =
      Inr \<lparr>literal_type = literal_type l, literal_dims = map nat new_sizes,
            literal_data = resized_data ?M (literal_data l)\<rparr>"
    by (simp add: value_of_result_def)
  from a have b: "nonneg_sizes back_sizes" "int64_sizes back_sizes" by simp_all
  from value_of_valid [OF assms(1)] value_of_dims_fit [OF assms(1)] a
  have bf: "fits64 (prod_list back_sizes)" by (simp add: valid_literal_def dims_fit_def)
  from a nat_prod_list [OF b(1)] have pb: "prod_list (map nat back_sizes) = length (literal_data l)"
    by simp
  from a nat_prod_list [OF assms(2)] have "length (literal_data l) \<le> ?M" by linarith
  then have "resized_data (length (literal_data l)) (resized_data ?M (literal_data l)) =
      literal_data l"
    by (simp add: resized_data_def)
  with BuildResize_value [OF gv b bf] pb g
  show "\<exists>grown. BuildResize input new_sizes = Inr grown \<and>
               value_of_result (BuildResize grown back_sizes) =
                 Inr \<lparr>literal_type = literal_type l, literal_dims = map nat back_sizes,
                       literal_data = literal_data l\<rparr>"
    by simp
qed

lemma example_matrix_value:
  "value_of example_matrix =
     Inr \<lparr>literal_type = S64, literal_dims = [2, 3], literal_data = [1, 2, 3, 4, 5, 6]\<rparr>"
  by (simp add: example_matrix_def valid_literal_def checked_def dims_fit_def fits64_def)

theorem BuildResize_truncates_or_pads_witness:
  "value_of_result (BuildResize example_matrix [2, 2]) =
     Inr \<lparr>literal_type = S64, literal_dims = [2, 2], literal_data = [1, 2, 3, 4]\<rparr> \<and>
   value_of_result (BuildResize example_matrix [4, 2]) =
     Inr \<lparr>literal_type = S64, literal_dims = [4, 2], literal_data = [1, 2, 3, 4, 5, 6, 0, 0]\<rparr> \<and>
   value_of_result (BuildResize example_matrix [2, 3]) = value_of example_matrix \<and>
   (\<exists>grown. BuildResize example_matrix [4, 2] = Inr grown \<and>
      value_of_result (BuildResize grown [3, 2]) =
        Inr \<lparr>literal_type = S64, literal_dims = [3, 2], literal_data = [1, 2, 3, 4, 5, 6]\<rparr>)"
proof -
  have n: "nonneg_sizes [2, 2]" "nonneg_sizes [4, 2]" "nonneg_sizes [3, 2]"
    by (simp_all add: nonneg_sizes_def)
  have i: "int64_sizes [2, 2]" "int64_sizes [4, 2]" "int64_sizes [3, 2]"
    by (simp_all add: int64_sizes_def fits64_def)
  have f: "fits64 (prod_list [2, 2])" "fits64 (prod_list [4, 2])"
    by (simp_all add: fits64_def)
  from BuildResize_truncates_or_pads
      [OF example_matrix_value n(1) i(1) f(1), of "[]", THEN conjunct2, THEN conjunct2]
    BuildResize_truncates_or_pads
      [OF example_matrix_value n(2) i(2) f(2), of "[3, 2]", THEN conjunct2, THEN conjunct2]
    n(3) i(3)
  show ?thesis by (simp add: example_matrix_value numeral_2_eq_2)
qed

text \<open>
  Claim C9 as stated fails where the product of the new sizes leaves the 64-bit range:
  for the new sizes \<open>[2^32, 2^32]\<close> the count \<open>2^64\<close> is computed as 0, and the input
  of 6 elements is truncated to none instead of being padded.
\<close>

theorem BuildResize_overflow_counterexample:
  "ShapeOfXlaOp example_matrix = Inr \<lparr>element_type = S64, dimensions = [2, 3]\<rparr> \<and>
   BuildResize example_matrix [4294967296, 4294967296] =
     Inr (Reshape (SliceInDim (Reshape example_matrix [6]) 0 0 1 0)
            [4294967296, 4294967296]) \<and>
   prod_list [4294967296, 4294967296] > (6 :: int)"
  by (simp add: example_matrix_shape BuildResize_def ElementsIn_def Multiply_def wrap64_def)

section \<open>Facts about Repeat\<close>

lemma valid_flatten_rows_of:
  assumes "length xs = prod_list ds" and "d < length ds"
  shows "flatten_rows (rows_of (outer_count d ds) (ds ! d) (inner_count d ds) xs) = xs"
  using assms by (intro flatten_rows_of) (simp add: prod_dims_split)

lemma lit_concat_single:
  assumes "valid_literal l" and "0 \<le> dimno" and "nat dimno < length (literal_dims l)"
  shows "lit_concat [l] dimno = Inr l"
proof -
  let ?ds = "literal_dims l" and ?d = "nat dimno"
  let ?R = "rows_of (outer_count ?d ?ds) (?ds ! ?d) (inner_count ?d ?ds) (literal_data l)"
  from assms have v: "length (literal_data l) = prod_list ?ds" by (simp add: valid_literal_def)
  from valid_rows_shaped [OF v assms(3)] have len: "length ?R = outer_count ?d ?ds"
    by (simp add: block_shaped_def)
  have "map (\<lambda>k. ?R ! k) [0..<outer_count ?d ?ds] = ?R"
    using map_nth [of ?R] len by simp
  with valid_flatten_rows_of [OF v assms(3)] assms(2,3) show ?thesis
    by (simp add: lit_concat_def concat_compatible_def)
qed

lemma lit_concat_twice:
  assumes "valid_literal l" and "literal_dims l = n # rest"
  shows "lit_concat [l, l] 0 =
           Inr (l\<lparr>literal_dims := (n + n) # rest, literal_data := literal_data l @ literal_data l\<rparr>)"
proof -
  let ?R = "rows_of (outer_count 0 (n # rest)) n (inner_count 0 (n # rest)) (literal_data l)"
  from assms have v: "length (literal_data l) = prod_list (n # rest)" by (simp add: valid_literal_def)
  have o: "outer_count 0 (n # rest) = Suc 0" by (simp add: outer_count_def)
  from valid_rows_shaped [OF v, of 0] o obtain B where R: "?R = [B]"
    by (cases ?R) (auto simp: block_shaped_def)
  from valid_flatten_rows_of [OF v, of 0] R have "concat B = literal_data l"
    by (simp add: flatten_rows_def)
  with R o assms(2) show ?thesis
    by (simp add: lit_concat_def concat_compatible_def flatten_rows_def)
qed

text \<open>
  Claim C4, as amended. For an input of shape \<open>[2, 3]\<close>, \<open>BuildRepeat\<close> with
  \<open>repeats = [2]\<close> fails the check that there are at least as many repeats as
  dimensions and returns no node; with \<open>repeats = [2, 1]\<close> it tiles dimension 0: the
  value has shape \<open>[4, 3]\<close> and its elements are those of the input twice, so rows 2 and
  3 equal rows 0 and 1.
\<close>

theorem BuildRepeat_two_by_three:
  assumes "value_of input = Inr l" and "literal_dims l = [2, 3]"
  shows "BuildRepeat input [2] = Inl RankMismatch \<and>
         value_of_result (BuildRepeat input [2, 1]) =
           Inr (l\<lparr>literal_dims := [4, 3], literal_data := literal_data l @ literal_data l\<rparr>)"
proof
  from assms have s: "SizesOfXlaOp input = Inr [2, 3]"
    by (simp add: SizesOfXlaOp_def ShapeOfXlaOp_def)
  then show "BuildRepeat input [2] = Inl RankMismatch" by (simp add: BuildRepeat_def)
  let ?l2 = "l\<lparr>literal_dims := [4, 3], literal_data := literal_data l @ literal_data l\<rparr>"
  from value_of_valid [OF assms(1)] have v: "valid_literal l" .
  from lit_concat_twice [OF v assms(2)] have c1: "lit_concat [l, l] 0 = Inr ?l2" by simp
  from v assms(2) have v2: "valid_literal ?l2" by (simp add: valid_literal_def)
  from lit_concat_single [OF v2, of 1] have c2: "lit_concat [?l2] 1 = Inr ?l2" by simp
  have "BuildRepeat input [2, 1] = Inr (ConcatInDim [ConcatInDim [input, input] 0] 1)"
    using s by (simp add: BuildRepeat_def numeral_2_eq_2)
  moreover have "dims_fit (literal_dims ?l2)" by (simp add: dims_fit_def fits64_def)
  ultimately show "value_of_result (BuildRepeat input [2, 1]) = Inr ?l2"
    using assms(1) c1 c2 by (simp add: value_of_result_def checked_Inr)
qed

theorem BuildRepeat_two_by_three_witness:
  "BuildRepeat example_matrix [2] = Inl RankMismatch \<and>
   value_of_result (BuildRepeat example_matrix [2, 1]) =
     Inr \<lparr>literal_type = S64, literal_dims = [4, 3],
           literal_data = [1, 2, 3, 4, 5, 6, 1, 2, 3, 4, 5, 6]\<rparr>"
  using BuildRepeat_two_by_three [OF example_matrix_value] by simp

text \<open>
  Claim C4 as stated fails: with one repeat for an input of two dimensions the call
  does not succeed.
\<close>

theorem BuildRepeat_short_repeats_counterexample:
  "SizesOfXlaOp example_matrix = Inr [2, 3] \<and>
   BuildRepeat example_matrix [2] = Inl RankMismatch"
  by (simp add: BuildRepeat_def example_matrix_sizes)

section \<open>Facts about Split followed by Concat\<close>

lemma dims_fit_shrink:
  assumes "dims_fit ds" and "d < length ds" and "s \<le> ds ! d"
  shows "dims_fit (ds[d := s])"
proof -
  from assms(2,3) have si: "fits64 (int (ds ! d)) \<Longrightarrow> fits64 (int s)"
    by (simp add: fits64_def)
  from assms(1,2) have "fits64 (int (ds ! d))" by (simp add: dims_fit_def list_all_length)
  with si have fs: "fits64 (int s)" by simp
  have "\<And>x. x \<in> set (ds[d := s]) \<Longrightarrow> fits64 (int x)"
  proof -
    fix x assume "x \<in> set (ds[d := s])"
    then have "x = s \<or> x \<in> set ds" using set_update_subset_insert [of ds d s] by auto
    with fs assms(1) show "fits64 (int x)" by (auto simp: dims_fit_def list_all_iff)
  qed
  then have a: "list_all (\<lambda>x. fits64 (int x)) (ds[d := s])" by (simp add: list_all_iff)
  have "prod_list (ds[d := s]) \<le> prod_list ds"
    using assms(2,3) by (simp add: prod_dims_update prod_dims_split [of d ds])
  with assms(1) have "fits64 (int (prod_list (ds[d := s])))"
    by (simp add: dims_fit_def fits64_def)
  with a show ?thesis by (simp add: dims_fit_def)
qed

lemma running_sums_nonneg:
  "nonneg_sizes sizes \<Longrightarrow> 0 \<le> acc \<Longrightarrow> fits64 (acc + sum_list sizes) \<Longrightarrow>
   running_sums_fit acc sizes"
proof (induction sizes arbitrary: acc)
  case Nil
  then show ?case by simp
next
  case (Cons s sizes)
  from Cons.prems(1) have s: "0 \<le> s" "nonneg_sizes sizes" by (simp_all add: nonneg_sizes_def)
  then have "0 \<le> sum_list sizes" by (induction sizes) (simp_all add: nonneg_sizes_def)
  with s Cons.prems(2,3) have "fits64 (acc + s)" by (simp add: fits64_def)
  moreover from Cons.IH [OF s(2), of "acc + s"] s Cons.prems(2,3)
  have "running_sums_fit (acc + s) sizes" by (simp add: add.assoc)
  ultimately show ?case by simp
qed

lemma slice_value:
  assumes "d < length (literal_dims l)" and "off + s \<le> literal_dims l ! d"
  shows "lit_slice_in_dim l (int off) (int off + int s) 1 (int d) = Inr (chunk l d off s)"
  using assms by (simp add: lit_slice_in_dim_def chunk_def Let_def)

lemma split_values:
  assumes "value_of input = Inr l" and "d < length (literal_dims l)"
  shows "off + sum_list ns \<le> literal_dims l ! d \<Longrightarrow>
         map value_of (split_spec input (int d) (int off) (int (literal_dims l ! d) - int off)
                         (map int ns)) =
           map Inr (chunks l d off ns)"
proof (induction ns arbitrary: off)
  case Nil
  then show ?case by simp
next
  case (Cons s ns)
  from Cons.prems have le: "off + s \<le> literal_dims l ! d"
    and le': "(off + s) + sum_list ns \<le> literal_dims l ! d" by simp_all
  have r: "int (literal_dims l ! d) - int off - int s = int (literal_dims l ! d) - int (off + s)"
    by simp
  from le have "\<not> int s > int (literal_dims l ! d) - int off" by linarith
  moreover from le have "s \<le> literal_dims l ! d" by simp
  from dims_fit_shrink [OF value_of_dims_fit [OF assms(1)] assms(2) this]
  have "checked (Inr (chunk l d off s)) = Inr (chunk l d off s)"
    by (intro checked_Inr) (simp add: chunk_def)
  ultimately show ?case
    using Cons.IH [OF le'] assms(1) slice_value [OF assms(2) le]
    by (simp add: r del: of_nat_add) (simp add: add.commute)
qed

lemma chunks_length [simp]: "length (chunks l d off ns) = length ns"
  by (induction ns arbitrary: off) simp_all

lemma chunks_sizes:
  "d < length (literal_dims l) \<Longrightarrow> map (\<lambda>c. literal_dims c ! d) (chunks l d off ns) = ns"
  by (induction ns arbitrary: off) (simp_all add: chunk_def)

lemma chunks_compatible:
  "list_all (concat_compatible d l0) (chunks l d off ns) \<longleftrightarrow>
     (ns = [] \<or> (literal_type l = literal_type l0 \<and>
                 (literal_dims l)[d := 0] = (literal_dims l0)[d := 0]))"
  by (induction ns arbitrary: off) (auto simp: chunk_def concat_compatible_def)

lemma chunk_rows:
  assumes "valid_literal l" and "d < length (literal_dims l)"
    and "off + s \<le> literal_dims l ! d" and "k < outer_count d (literal_dims l)"
  shows "rows_of (outer_count d (literal_dims l)) s (inner_count d (literal_dims l))
           (literal_data (chunk l d off s)) ! k =
         take s (drop off
           (rows_of (outer_count d (literal_dims l)) (literal_dims l ! d)
              (inner_count d (literal_dims l)) (literal_data l) ! k))"
proof -
  let ?ds = "literal_dims l"
  let ?R = "rows_of (outer_count d ?ds) (?ds ! d) (inner_count d ?ds) (literal_data l)"
  let ?f = "\<lambda>rows. take s (drop off rows)"
  from assms(1) have v: "length (literal_data l) = prod_list ?ds" by (simp add: valid_literal_def)
  from valid_rows_shaped [OF v assms(2)]
  have sh: "block_shaped (outer_count d ?ds) (?ds ! d) (inner_count d ?ds) ?R" .
  have "block_shaped (outer_count d ?ds) s (inner_count d ?ds) (map ?f ?R)"
  proof (rule block_shaped_map [OF sh])
    fix B assume "B \<in> set ?R"
    with sh have lB: "length B = ?ds ! d" and rB: "\<forall>r\<in>set B. length r = inner_count d ?ds"
      by (auto simp: block_shaped_def)
    have "set (?f B) \<subseteq> set B"
      using set_take_subset [of s "drop off B"] set_drop_subset [of off B] by blast
    with lB rB assms(3)
    show "length (?f B) = s \<and> (\<forall>r\<in>set (?f B). length r = inner_count d ?ds)" by auto
  qed
  from rows_of_flatten [OF this] sh assms(4) show ?thesis
    by (simp add: chunk_def block_shaped_def)
qed

lemma chunks_rows:
  assumes "valid_literal l" and "d < length (literal_dims l)"
    and "k < outer_count d (literal_dims l)"
  shows "off + sum_list ns \<le> literal_dims l ! d \<Longrightarrow>
         concat (map (\<lambda>c. rows_of (outer_count d (literal_dims l)) (literal_dims c ! d)
                             (inner_count d (literal_dims l)) (literal_data c) ! k)
                   (chunks l d off ns)) =
         take (sum_list ns) (drop off
           (rows_of (outer_count d (literal_dims l)) (literal_dims l ! d)
              (inner_count d (literal_dims l)) (literal_data l) ! k))"
proof (induction ns arbitrary: off)
  case Nil
  then show ?case by simp
next
  case (Cons s ns)
  from Cons.prems have le: "off + s \<le> literal_dims l ! d"
    and le': "(off + s) + sum_list ns \<le> literal_dims l ! d" by simp_all
  have ds: "literal_dims (chunk l d off s) ! d = s" using assms(2) by (simp add: chunk_def)
  show ?case
    using Cons.IH [OF le'] chunk_rows [OF assms(1,2) le assms(3)]
    by (simp add: ds take_add add.commute)
qed

lemma lit_concat_chunks:
  assumes "valid_literal l" and "d < length (literal_dims l)"
    and "ns \<noteq> []" and "sum_list ns = literal_dims l ! d"
  shows "lit_concat (chunks l d 0 ns) (int d) = Inr l"
proof -
  let ?ds = "literal_dims l"
  let ?o = "outer_count d ?ds" and ?i = "inner_count d ?ds"
  let ?R = "rows_of ?o (?ds ! d) ?i (literal_data l)"
  from assms(3) obtain s ss where ns: "ns = s # ss" by (cases ns) auto
  from assms(1) have v: "length (literal_data l) = prod_list ?ds" by (simp add: valid_literal_def)
  from valid_rows_shaped [OF v assms(2)] have sh: "block_shaped ?o (?ds ! d) ?i ?R" .
  have rows: "map (\<lambda>k. concat (map (\<lambda>c. rows_of ?o (literal_dims c ! d) ?i (literal_data c) ! k)
                   (chunks l d 0 ns))) [0..<?o] = ?R"
  proof -
    have "\<And>k. k < ?o \<Longrightarrow>
        concat (map (\<lambda>c. rows_of ?o (literal_dims c ! d) ?i (literal_data c) ! k)
                   (chunks l d 0 ns)) = ?R ! k"
    proof -
      fix k assume k: "k < ?o"
      with sh have "length (?R ! k) = ?ds ! d" by (simp add: block_shaped_def)
      with chunks_rows [OF assms(1,2) k, of 0 ns] assms(4) show
        "concat (map (\<lambda>c. rows_of ?o (literal_dims c ! d) ?i (literal_data c) ! k)
                   (chunks l d 0 ns)) = ?R ! k" by simp
    qed
    then have "map (\<lambda>k. concat (map (\<lambda>c. rows_of ?o (literal_dims c ! d) ?i (literal_data c) ! k)
                   (chunks l d 0 ns))) [0..<?o] = map (\<lambda>k. ?R ! k) [0..<?o]"
      by simp
    also have "\<dots> = ?R" using map_nth [of ?R] sh by (simp add: block_shaped_def)
    finally show ?thesis .
  qed
  have comp: "list_all (concat_compatible d (chunk l d 0 s)) (chunks l d 0 ns)"
    by (simp add: chunks_compatible) (simp add: chunk_def)
  have hd: "chunks l d 0 ns = chunk l d 0 s # chunks l d s ss" by (simp add: ns)
  have dims0: "literal_dims (chunk l d 0 s) = ?ds[d := s]" "literal_type (chunk l d 0 s) = literal_type l"
    by (simp_all add: chunk_def)
  have "lit_concat (chunks l d 0 ns) (int d) =
      Inr \<lparr>literal_type = literal_type l,
            literal_dims = (?ds[d := s])[d := sum_list (map (\<lambda>c. literal_dims c ! d) (chunks l d 0 ns))],
            literal_data = flatten_rows
              (map (\<lambda>k. concat (map (\<lambda>c. rows_of ?o (literal_dims c ! d) ?i (literal_data c) ! k)
                   (chunks l d 0 ns))) [0..<?o])\<rparr>"
    using comp assms(2) unfolding lit_concat_def hd [symmetric]
    by (subst hd) (simp add: dims0 Let_def del: chunks.simps)
  also have "\<dots> = Inr l"
    using assms(2,4) valid_flatten_rows_of [OF v assms(2)]
    by (simp only: rows chunks_sizes [OF assms(2)]) simp
  finally show ?thesis .
qed

lemma map_int_nat: "nonneg_sizes sizes \<Longrightarrow> map int (map nat sizes) = sizes"
  by (induction sizes) (simp_all add: nonneg_sizes_def)

lemma sum_list_nat: "nonneg_sizes sizes \<Longrightarrow> int (sum_list (map nat sizes)) = sum_list sizes"
  by (induction sizes) (simp_all add: nonneg_sizes_def)

text \<open>
  Claim C6, as amended. For a dimension in range and a non-empty list of non-negative
  split sizes that sum exactly to the input's size along that dimension, \<open>BuildSplit\<close>
  returns one chunk per size and \<open>BuildCat\<close> of the chunks along the same dimension
  is a node whose value is the value of the input.
\<close>

theorem Split_then_Cat_roundtrip:
  assumes "SizesOfXlaOp input = Inr input_sizes"
    and "0 \<le> dim" and "nat dim < length input_sizes"
    and "split_sizes \<noteq> []" and "nonneg_sizes split_sizes"
    and "sum_list split_sizes = input_sizes ! nat dim"
  shows "\<exists>splits cat. BuildSplit input split_sizes dim = Inr splits \<and>
           length splits = length split_sizes \<and>
           BuildCat splits dim = Inr cat \<and> value_of cat = value_of input"
proof -
  from assms(1) obtain l where l: "value_of input = Inr l"
    and sizes: "input_sizes = map int (literal_dims l)"
    by (auto simp: SizesOfXlaOp_value)
  let ?d = "nat dim" and ?ns = "map nat split_sizes"
  let ?splits = "split_spec input dim 0 (input_sizes ! ?d) split_sizes"
  from assms(3) sizes have d: "?d < length (literal_dims l)" by simp
  from assms(2) have dim: "dim = int ?d" by simp
  from assms(6) sizes d have "sum_list split_sizes = int (literal_dims l ! ?d)" by simp
  with sum_list_nat [OF assms(5)] have sum: "sum_list ?ns = literal_dims l ! ?d" by simp
  from value_of_dims_fit [OF l] d have "fits64 (int (literal_dims l ! ?d))"
    by (simp add: dims_fit_def list_all_length)
  with assms(6) sizes d have "fits64 (0 + sum_list split_sizes)" by simp
  from running_sums_nonneg [OF assms(5) _ this]
  have rs: "running_sums_fit 0 split_sizes" by simp
  have b: "BuildSplit input split_sizes dim = Inr ?splits"
    using assms(1,2,3) by (simp add: BuildSplit_def split_loop_spec [OF rs])
  have mi: "map int ?ns = split_sizes" using assms(5) by (rule map_int_nat)
  have idd: "int ?d = dim" using assms(2) by simp
  from split_values [OF l d, of 0 ?ns, unfolded mi idd] sum sizes d
  have vals: "map value_of ?splits = map Inr (chunks l ?d 0 ?ns)"
    by simp
  then have "length (map value_of ?splits) = length (map Inr (chunks l ?d 0 ?ns))" by simp
  then have len: "length ?splits = length split_sizes" by simp
  with assms(4) have c: "BuildCat ?splits dim = Inr (ConcatInDim ?splits dim)"
    by (simp add: BuildCat_def)
  from assms(4) have ne: "?ns \<noteq> []" by simp
  from lit_concat_chunks [OF value_of_valid [OF l] d ne sum] dim
  have "lit_concat (chunks l ?d 0 ?ns) dim = Inr l" by simp
  then have "value_of (ConcatInDim ?splits dim) = value_of input"
    by (simp add: vals l checked_Inr [OF value_of_dims_fit [OF l]])
  with b len c show ?thesis by blast
qed

lemma example_pair_sizes: "SizesOfXlaOp example_pair = Inr [2]"
  by (simp add: SizesOfXlaOp_def ShapeOfXlaOp_def example_pair_def valid_literal_def checked_def dims_fit_def fits64_def)

theorem Split_then_Cat_roundtrip_witness:
  "\<exists>splits cat. BuildSplit example_matrix [1, 0, 2] 1 = Inr splits \<and> length splits = 3 \<and>
     BuildCat splits 1 = Inr cat \<and> value_of cat = value_of example_matrix"
proof -
  have "nonneg_sizes [1, 0, 2]" by (simp add: nonneg_sizes_def)
  from Split_then_Cat_roundtrip [OF example_matrix_sizes _ _ _ this, of 1]
  show ?thesis by (simp add: numeral_3_eq_3)
qed

text \<open>
  Claim C6 as stated fails for the empty list of split sizes on a dimension of size 0
  (the sizes sum to the dimension, no chunk is returned and \<open>BuildCat\<close> rejects the empty
  list) and for a negative size (the sizes \<open>[-1, 3]\<close> sum to 2, the chunks are invalid
  slices and so is their concatenation).
\<close>

theorem Split_then_Cat_counterexample:
  "SizesOfXlaOp example_empty = Inr [0] \<and> sum_list [] = [0 :: int] ! 0 \<and>
   BuildSplit example_empty [] 0 = Inr [] \<and> BuildCat [] 0 = Inl EmptyInputs \<and>
   SizesOfXlaOp example_pair = Inr [2] \<and> sum_list [-1, 3] = [2 :: int] ! 0 \<and>
   BuildSplit example_pair [-1, 3] 0 =
     Inr [SliceInDim example_pair 0 (-1) 1 0, SliceInDim example_pair (-1) 2 1 0] \<and>
   value_of_result
     (BuildCat [SliceInDim example_pair 0 (-1) 1 0, SliceInDim example_pair (-1) 2 1 0] 0) =
     Inl InvalidArgument"
  by (simp add: SizesOfXlaOp_def ShapeOfXlaOp_def example_empty_def example_pair_def
      valid_literal_def checked_def dims_fit_def fits64_def BuildSplit_def BuildCat_def
      value_of_result_def lit_slice_in_dim_def wrap64_def)

end
